theory Spec2Isabelle
  imports Complex_Main
begin

section \<open>Floating-point values of the program\<close>

text \<open>
  The source computes with C++ \<open>float\<close> (IEEE-754 binary32) and \<open>double\<close> (binary64).
  A value is a rational (every finite float is one), an infinity or a NaN; an operation
  is the exact operation followed by rounding to nearest, ties to even, in the format of
  the operation. The sign of zero is not kept: no comparison of the source tells the two
  zeros apart, and the divisors of the source are conversions of integers and differences
  of extents.
\<close>

datatype fp = Fin rat | PInf | NInf | NaN

record format =
  prec :: nat
  emin :: int
  emax :: int

definition binary32 :: format where
  "binary32 = \<lparr>prec = 24, emin = - 126, emax = 127\<rparr>"

definition binary64 :: format where
  "binary64 = \<lparr>prec = 53, emin = - 1022, emax = 1023\<rparr>"

definition pow2 :: "int \<Rightarrow> rat" where
  "pow2 k = (if 0 \<le> k then 2 ^ nat k else 1 / 2 ^ nat (- k))"

fun bitlen :: "nat \<Rightarrow> nat" where
  "bitlen n = (if n = 0 then 0 else Suc (bitlen (n div 2)))"

declare bitlen.simps [simp del]

text \<open>\<open>ilog2 a\<close> is the exponent of a positive rational: the largest \<open>e\<close> with \<open>2^e \<le> a\<close>.\<close>

definition ilog2 :: "rat \<Rightarrow> int" where
  "ilog2 a = (if 1 \<le> a then int (bitlen (nat \<lfloor>a\<rfloor>)) - 1
              else - int (bitlen (nat (\<lceil>1 / a\<rceil> - 1))))"

text \<open>Rounding of a rational to the nearest integer, a tie going to the even one.\<close>

definition rhe :: "rat \<Rightarrow> int" where
  "rhe x = (let f = \<lfloor>x\<rfloor>; d = x - of_int f in
     if d < 1 / 2 then f else if 1 / 2 < d then f + 1 else if even f then f else f + 1)"

text \<open>
  Rounding of an exact result into a format: the unit in the last place is taken at the
  exponent of the value (at least \<open>emin\<close>, which gives the subnormal numbers), and a
  result whose exponent is beyond \<open>emax\<close> is an infinity.
\<close>

definition rnd :: "format \<Rightarrow> rat \<Rightarrow> fp" where
  "rnd fm q = (if q = 0 then Fin 0 else
     let a = \<bar>q\<bar>;
         e = max (ilog2 a) (emin fm);
         ulp = pow2 (e - int (prec fm) + 1);
         m = of_int (rhe (a / ulp)) * ulp
     in if 0 < m \<and> emax fm < ilog2 m then (if 0 < q then PInf else NInf)
        else Fin (if 0 < q then m else - m))"

fun fneg :: "fp \<Rightarrow> fp" where
  "fneg (Fin x) = Fin (- x)"
| "fneg PInf = NInf"
| "fneg NInf = PInf"
| "fneg NaN = NaN"

fun fadd :: "format \<Rightarrow> fp \<Rightarrow> fp \<Rightarrow> fp" where
  "fadd fm (Fin x) (Fin y) = rnd fm (x + y)"
| "fadd fm NaN _ = NaN"
| "fadd fm _ NaN = NaN"
| "fadd fm PInf NInf = NaN"
| "fadd fm NInf PInf = NaN"
| "fadd fm PInf _ = PInf"
| "fadd fm _ PInf = PInf"
| "fadd fm NInf _ = NInf"
| "fadd fm _ NInf = NInf"

definition fsub :: "format \<Rightarrow> fp \<Rightarrow> fp \<Rightarrow> fp" where
  "fsub fm x y = fadd fm x (fneg y)"

text \<open>The sign of an infinite product or quotient, from the signs of its operands.\<close>

definition inf_of :: "bool \<Rightarrow> fp" where
  "inf_of negative = (if negative then NInf else PInf)"

fun fmul :: "format \<Rightarrow> fp \<Rightarrow> fp \<Rightarrow> fp" where
  "fmul fm (Fin x) (Fin y) = rnd fm (x * y)"
| "fmul fm NaN _ = NaN"
| "fmul fm _ NaN = NaN"
| "fmul fm (Fin x) PInf = (if x = 0 then NaN else inf_of (x < 0))"
| "fmul fm (Fin x) NInf = (if x = 0 then NaN else inf_of (0 < x))"
| "fmul fm PInf (Fin y) = (if y = 0 then NaN else inf_of (y < 0))"
| "fmul fm NInf (Fin y) = (if y = 0 then NaN else inf_of (0 < y))"
| "fmul fm PInf PInf = PInf"
| "fmul fm NInf NInf = PInf"
| "fmul fm PInf NInf = NInf"
| "fmul fm NInf PInf = NInf"

fun fdiv :: "format \<Rightarrow> fp \<Rightarrow> fp \<Rightarrow> fp" where
  "fdiv fm (Fin x) (Fin y) =
     (if y = 0 then (if x = 0 then NaN else inf_of (x < 0)) else rnd fm (x / y))"
| "fdiv fm NaN _ = NaN"
| "fdiv fm _ NaN = NaN"
| "fdiv fm (Fin x) PInf = Fin 0"
| "fdiv fm (Fin x) NInf = Fin 0"
| "fdiv fm PInf (Fin y) = inf_of (y < 0)"
| "fdiv fm NInf (Fin y) = inf_of (0 \<le> y)"
| "fdiv fm PInf PInf = NaN"
| "fdiv fm NInf NInf = NaN"
| "fdiv fm PInf NInf = NaN"
| "fdiv fm NInf PInf = NaN"

text \<open>Comparisons: every comparison with a NaN is false, except \<open>!=\<close>.\<close>

fun fle :: "fp \<Rightarrow> fp \<Rightarrow> bool" where
  "fle (Fin x) (Fin y) = (x \<le> y)"
| "fle NaN _ = False"
| "fle _ NaN = False"
| "fle NInf _ = True"
| "fle _ PInf = True"
| "fle PInf _ = False"
| "fle _ NInf = False"

fun flt :: "fp \<Rightarrow> fp \<Rightarrow> bool" where
  "flt (Fin x) (Fin y) = (x < y)"
| "flt NaN _ = False"
| "flt _ NaN = False"
| "flt PInf _ = False"
| "flt _ NInf = False"
| "flt NInf _ = True"
| "flt _ PInf = True"

fun fneq :: "fp \<Rightarrow> fp \<Rightarrow> bool" where
  "fneq (Fin x) (Fin y) = (x \<noteq> y)"
| "fneq NaN _ = True"
| "fneq _ NaN = True"
| "fneq PInf PInf = False"
| "fneq NInf NInf = False"
| "fneq _ _ = True"

text \<open>Conversions: \<open>(float) i\<close> of an \<open>int\<close>, and a \<open>double\<close> stored into a \<open>float\<close>.\<close>

definition float_of_int :: "int \<Rightarrow> fp" where
  "float_of_int i = rnd binary32 (of_int i)"

fun narrow :: "fp \<Rightarrow> fp" where
  "narrow (Fin x) = rnd binary32 x"
| "narrow PInf = PInf"
| "narrow NInf = NInf"
| "narrow NaN = NaN"

text \<open>
  What can go wrong in the source without the source noticing: a conversion \<open>(int) x\<close> of a
  value whose truncation is not an \<open>int\<close> (undefined in C++), an index outside a vector,
  \<open>highestValue+1\<close> beyond the largest \<open>int\<close>, and a call through a null \<open>read\<close> pointer.
\<close>

datatype fault = UndefinedCast | OutOfRange | SignedOverflow | NullPointer

definition INT_MAX :: int where
  "INT_MAX = 2147483647"

definition INT_MIN :: int where
  "INT_MIN = - 2147483648"

text \<open>\<open>(int) x\<close>: the fractional part is discarded (truncation toward zero).\<close>

fun cast_int :: "fp \<Rightarrow> fault + int" where
  "cast_int (Fin x) =
     (let t = (if 0 \<le> x then \<lfloor>x\<rfloor> else \<lceil>x\<rceil>)
      in if INT_MIN \<le> t \<and> t \<le> INT_MAX then Inr t else Inl UndefinedCast)"
| "cast_int _ = Inl UndefinedCast"

section \<open>Tile keys, extents, images and coverage layers\<close>

text \<open>
  Modelled from the spec: the tile address (\<open>TileKey\<close>, declared outside this file). It is
  a level of detail, a column and a row of a quad-subdivided grid; the parent of a tile is
  the tile of the level above that contains it, and a tile of level 0 has no parent (the
  parent key is the invalid key).
\<close>

datatype TileKey = TileKey nat nat nat | INVALID

fun key_valid :: "TileKey \<Rightarrow> bool" where
  "key_valid (TileKey l x y) = True"
| "key_valid INVALID = False"

fun createParentKey :: "TileKey \<Rightarrow> TileKey" where
  "createParentKey (TileKey (Suc l) x y) = TileKey l (x div 2) (y div 2)"
| "createParentKey (TileKey 0 x y) = INVALID"
| "createParentKey INVALID = INVALID"

fun getLOD :: "TileKey \<Rightarrow> nat" where
  "getLOD (TileKey l x y) = l"
| "getLOD INVALID = 0"

text \<open>The four numbers the source reads from a \<open>GeoExtent\<close>, all of type \<open>double\<close>.\<close>

record GeoExtent =
  xMin :: fp
  yMin :: fp
  width :: fp
  height :: fp

datatype Vec4 = Vec4 fp fp fp fp

fun red :: "Vec4 \<Rightarrow> fp" where
  "red (Vec4 x y z w) = x"

fun set_red :: "Vec4 \<Rightarrow> fp \<Rightarrow> Vec4" where
  "set_red (Vec4 x y z w) x' = Vec4 x' y z w"

text \<open>
  A valid \<open>GeoImage\<close>: its extent, and the \<open>PixelReader\<close> made of its raster, which the
  source sets to nearest-neighbour sampling and calls at a unit coordinate. An invalid
  \<open>GeoImage\<close> is \<open>None\<close>.
\<close>

record GeoImage =
  getExtent :: GeoExtent
  read :: "fp \<Rightarrow> fp \<Rightarrow> Vec4"

text \<open>
  What the source asks of a \<open>LandCoverCoverageLayer\<close>: its flags, its legal range, the
  image it creates for a key (the provider; its answer for a key does not change during one
  composite), its value mappings and its dictionary (a null pointer is \<open>None\<close>), which
  resolves a class name to the value of the class.
\<close>

record Coverage =
  getEnabled :: bool
  getVisible :: bool
  isKeyInLegalRange :: "TileKey \<Rightarrow> bool"
  createImageOf :: "TileKey \<Rightarrow> GeoImage option"
  getMappings :: "(int \<times> string) list"
  getDictionary :: "(string \<Rightarrow> int option) option"

section \<open>ILayer: the binding of one coverage to the requested tile\<close>

record ILayer =
  image_of :: "GeoImage option"
  scale :: fp
  bias_x :: fp
  bias_y :: fp
  valid :: bool

definition ILayer_new :: ILayer where
  "ILayer_new = \<lparr>image_of = None, scale = Fin 1, bias_x = Fin 0, bias_y = Fin 0, valid = True\<rparr>"

text \<open>
  The loop of \<open>load\<close>: \<open>for (k = key; k.valid() && !image.valid(); k = k.createParentKey())
  image = sourceLayer->createImage(k)\<close>.
\<close>

function ancestor_walk ::
  "(TileKey \<Rightarrow> GeoImage option) \<Rightarrow> TileKey \<Rightarrow> GeoImage option \<Rightarrow> GeoImage option" where
  "ancestor_walk prov k img =
     (if key_valid k \<and> Option.is_none img
      then ancestor_walk prov (createParentKey k) (prov k) else img)"
  by pat_completeness auto
termination
proof (relation "measure (\<lambda>(prov, k, img). case k of INVALID \<Rightarrow> 0 | TileKey l x y \<Rightarrow> Suc l)")
  show "wf (measure (\<lambda>(prov, k, img). case k of INVALID \<Rightarrow> 0 | TileKey l x y \<Rightarrow> Suc l))"
    by simp
next
  fix prov :: "TileKey \<Rightarrow> GeoImage option" and k :: TileKey and img :: "GeoImage option"
  assume "key_valid k \<and> Option.is_none img"
  then obtain l x y where k: "k = TileKey l x y"
    by (cases k) auto
  show "((prov, createParentKey k, prov k), (prov, k, img))
      \<in> measure (\<lambda>(prov, k, img). case k of INVALID \<Rightarrow> 0 | TileKey l x y \<Rightarrow> Suc l)"
    unfolding k by (cases l) auto
qed

declare ancestor_walk.simps [simp del]

text \<open>
  \<open>ILayer::load\<close>. The extent of a key comes from the addressing scheme, which is outside
  this file: it is the parameter \<open>key_extent\<close>. The quotients are computed in \<open>double\<close>
  and stored into \<open>float\<close> fields.
\<close>

definition load :: "(TileKey \<Rightarrow> GeoExtent) \<Rightarrow> TileKey \<Rightarrow> Coverage \<Rightarrow> ILayer \<Rightarrow> ILayer" where
  "load key_extent key sourceLayer l =
     (let img = (if getEnabled sourceLayer \<and> getVisible sourceLayer
                    \<and> isKeyInLegalRange sourceLayer key
                 then ancestor_walk (createImageOf sourceLayer) key (image_of l)
                 else image_of l)
      in case img of
           None \<Rightarrow> l\<lparr>image_of := None, valid := False\<rparr>
         | Some im \<Rightarrow>
             l\<lparr>image_of := Some im, valid := True,
               scale := narrow (fdiv binary64 (width (key_extent key)) (width (getExtent im))),
               bias_x := narrow (fdiv binary64
                           (fsub binary64 (xMin (key_extent key)) (xMin (getExtent im)))
                           (width (getExtent im))),
               bias_y := narrow (fdiv binary64
                           (fsub binary64 (yMin (key_extent key)) (yMin (getExtent im)))
                           (height (getExtent im)))\<rparr>)"

section \<open>The code map of a coverage\<close>

type_synonym CodeMap = "int list"

text \<open>\<open>codemap[value] = c\<close>: the index is converted to an unsigned size.\<close>

definition codemap_store :: "CodeMap \<Rightarrow> int \<Rightarrow> int \<Rightarrow> fault + CodeMap" where
  "codemap_store codemap v c =
     (if 0 \<le> v \<and> nat v < length codemap then Inr (codemap[nat v := c]) else Inl OutOfRange)"

definition highest_value :: "(int \<times> string) list \<Rightarrow> int" where
  "highest_value ms = fold (\<lambda>(v, name) h. if h < v then v else h) ms 0"

definition store_mapping ::
  "(string \<Rightarrow> int option) \<Rightarrow> int \<times> string \<Rightarrow> fault + CodeMap \<Rightarrow> fault + CodeMap" where
  "store_mapping dict m acc =
     (case acc of
        Inl e \<Rightarrow> Inl e
      | Inr codemap \<Rightarrow>
          (case dict (snd m) of
             None \<Rightarrow> Inr codemap
           | Some c \<Rightarrow> codemap_store codemap (fst m) c))"

text \<open>
  \<open>buildCodeMap(coverage, codemap)\<close>: the second argument is the code map before the call
  and the result the code map after it.
\<close>

definition buildCodeMap :: "Coverage option \<Rightarrow> CodeMap \<Rightarrow> fault + CodeMap" where
  "buildCodeMap coverage codemap =
     (case coverage of
        None \<Rightarrow> Inr codemap
      | Some cov \<Rightarrow>
          (case getDictionary cov of
             None \<Rightarrow> Inr codemap
           | Some dict \<Rightarrow>
               (let highestValue = highest_value (getMappings cov)
                in if INT_MAX \<le> highestValue then Inl SignedOverflow
                   else fold (store_mapping dict) (getMappings cov)
                          (Inr (replicate (nat (highestValue + 1)) (- 1))))))"

section \<open>The tile source and the composite of a tile\<close>

record LandCoverTileSource =
  coverages :: "Coverage list"
  codemaps :: "CodeMap list"
  bits :: "nat option"
  getPixelsPerTile :: int

datatype InternalFormat = GL_LUMINANCE16F_ARB | GL_LUMINANCE32F_ARB

text \<open>
  The image \<open>createImage\<close> returns: its size, its internal format, and the calls
  \<open>write.f(texel, u, v)\<close> made on it, in the order of the calls. The \<open>PixelWriter\<close> that
  turns \<open>(u, v)\<close> into a texel of the raster is outside this file.
\<close>

record Image =
  size_s :: int
  size_t :: int
  internalTextureFormat :: InternalFormat
  writes :: "(Vec4 \<times> fp \<times> fp) list"

text \<open>An \<open>int\<close> compared with, or used as, a \<open>size_t\<close> is converted to it.\<close>

definition to_size_t :: "int \<Rightarrow> nat" where
  "to_size_t i = nat (i mod 2 ^ 64)"

text \<open>\<open>v[i]\<close> on a vector checks nothing; the model says when the index is outside.\<close>

definition vector_at :: "'a list \<Rightarrow> nat \<Rightarrow> fault + 'a" where
  "vector_at xs i = (if i < length xs then Inr (xs ! i) else Inl OutOfRange)"

text \<open>
  The integer code of a texel that is not the no-data value: the first statement of the
  two branches of \<open>if (texel.r() < 1.0f)\<close>.
\<close>

definition raw_code :: "fp \<Rightarrow> fault + int" where
  "raw_code x = (if flt x (Fin 1) then cast_int (fmul binary32 x (Fin 255)) else cast_int x)"

text \<open>
  What both branches do with the code: \<open>code < codemap.size()\<close>, then \<open>codemap[code]\<close>,
  which is written if it is not negative.
\<close>

definition translate :: "CodeMap \<Rightarrow> int \<Rightarrow> fault + int option" where
  "translate codemap code =
     (if to_size_t code < length codemap
      then (case vector_at codemap (to_size_t code) of
              Inl e \<Rightarrow> Inl e
            | Inr value \<Rightarrow> Inr (if 0 \<le> value then Some value else None))
      else Inr None)"

text \<open>
  The body of the loop over the layers for a layer that is valid: the texel to write, if
  this layer gives one. \<open>NO_DATA_VALUE\<close> is a constant of another file: the parameter
  \<open>no_data\<close>.
\<close>

definition sample_layer ::
  "fp \<Rightarrow> CodeMap list \<Rightarrow> nat \<Rightarrow> ILayer \<Rightarrow> fp \<Rightarrow> fp \<Rightarrow> fault + Vec4 option" where
  "sample_layer no_data cms L layer u v =
     (let cov_x = fadd binary32 (fmul binary32 (scale layer) u) (bias_x layer);
          cov_y = fadd binary32 (fmul binary32 (scale layer) v) (bias_y layer)
      in if fle (Fin 0) cov_x \<and> fle cov_x (Fin 1) \<and> fle (Fin 0) cov_y \<and> fle cov_y (Fin 1)
         then (case image_of layer of
                 None \<Rightarrow> Inl NullPointer
               | Some im \<Rightarrow>
                   (let texel = read im cov_x cov_y
                    in if fneq (red texel) no_data
                       then (case raw_code (red texel) of
                               Inl e \<Rightarrow> Inl e
                             | Inr code \<Rightarrow>
                                 (case vector_at cms L of
                                    Inl e \<Rightarrow> Inl e
                                  | Inr codemap \<Rightarrow>
                                      (case translate codemap code of
                                         Inl e \<Rightarrow> Inl e
                                       | Inr None \<Rightarrow> Inr None
                                       | Inr (Some value) \<Rightarrow>
                                           Inr (Some (set_red texel (float_of_int value))))))
                       else Inr None))
         else Inr None)"

text \<open>
  The loop \<open>for (int L = layers.size()-1; L >= 0 && !wrotePixel; --L)\<close>; the counter of the
  model is \<open>L + 1\<close>. A layer is loaded when it is first looked at.
\<close>

fun scan_layers ::
  "(TileKey \<Rightarrow> GeoExtent) \<Rightarrow> fp \<Rightarrow> LandCoverTileSource \<Rightarrow> TileKey \<Rightarrow> fp \<Rightarrow> fp \<Rightarrow> nat
     \<Rightarrow> ILayer list \<Rightarrow> fault + ILayer list \<times> Vec4 option" where
  "scan_layers key_extent no_data ts key u v 0 layers = Inr (layers, None)"
| "scan_layers key_extent no_data ts key u v (Suc L) layers =
     (let layer = layers ! L
      in if \<not> valid layer then scan_layers key_extent no_data ts key u v L layers
         else
           (let layer' = (if Option.is_none (image_of layer)
                          then load key_extent key (coverages ts ! L) layer else layer);
                layers' = layers[L := layer']
            in if \<not> valid layer' then scan_layers key_extent no_data ts key u v L layers'
               else (case sample_layer no_data (codemaps ts) L layer' u v of
                       Inl e \<Rightarrow> Inl e
                     | Inr (Some texel) \<Rightarrow> Inr (layers', Some texel)
                     | Inr None \<Rightarrow> scan_layers key_extent no_data ts key u v L layers')))"

definition nodata_texel :: "fp \<Rightarrow> InternalFormat \<Rightarrow> Vec4" where
  "nodata_texel no_data internalFormat =
     (if internalFormat = GL_LUMINANCE16F_ARB
      then Vec4 (Fin (- 32768)) (Fin (- 32768)) (Fin (- 32768)) (Fin (- 32768))
      else Vec4 no_data no_data no_data no_data)"

text \<open>The body of the loop over \<open>v\<close>: one texel is written at \<open>(u, v)\<close>.\<close>

definition pixel ::
  "(TileKey \<Rightarrow> GeoExtent) \<Rightarrow> fp \<Rightarrow> LandCoverTileSource \<Rightarrow> TileKey \<Rightarrow> Vec4 \<Rightarrow> fp \<Rightarrow> fp
     \<Rightarrow> ILayer list \<times> (Vec4 \<times> fp \<times> fp) list
     \<Rightarrow> fault + ILayer list \<times> (Vec4 \<times> fp \<times> fp) list" where
  "pixel key_extent no_data ts key nodata u v st =
     (case scan_layers key_extent no_data ts key u v (length (fst st)) (fst st) of
        Inl e \<Rightarrow> Inl e
      | Inr (layers', Some texel) \<Rightarrow> Inr (layers', snd st @ [(texel, u, v)])
      | Inr (layers', None) \<Rightarrow> Inr (layers', snd st @ [(nodata, u, v)]))"

text \<open>
  \<open>for (float x = 0.0f; x <= 1.0f; x += d) body\<close>, from the current \<open>x\<close>. Nothing in the
  source bounds the number of rounds, so a loop that does not end has no result (\<open>None\<close>).
\<close>

partial_function (option) float_for ::
  "(fp \<Rightarrow> 'st \<Rightarrow> (fault + 'st) option) \<Rightarrow> fp \<Rightarrow> fp \<Rightarrow> 'st \<Rightarrow> (fault + 'st) option" where
  "float_for body d x st =
     (if fle x (Fin 1)
      then Option.bind (body x st)
             (\<lambda>res. case res of
                       Inl e \<Rightarrow> Some (Inl e)
                     | Inr st' \<Rightarrow> float_for body d (fadd binary32 x d) st')
      else Some (Inr st))"

declare float_for.simps [code]

text \<open>
  \<open>LandCoverTileSource::createImage\<close>: \<open>Some (Inr None)\<close> is the null pointer,
  \<open>Some (Inr (Some out))\<close> the image, \<open>Some (Inl e)\<close> a fault and \<open>None\<close> a run that does not
  end.
\<close>

definition createImage ::
  "(TileKey \<Rightarrow> GeoExtent) \<Rightarrow> fp \<Rightarrow> LandCoverTileSource \<Rightarrow> TileKey \<Rightarrow> (fault + Image option) option"
  where
  "createImage key_extent no_data ts key =
     (if List.null (coverages ts) then Some (Inr None)
      else
        (let layers = replicate (length (coverages ts)) ILayer_new;
             internalFormat = (if bits ts = Some 16 then GL_LUMINANCE16F_ARB
                               else GL_LUMINANCE32F_ARB);
             tilesize = getPixelsPerTile ts;
             du = fdiv binary32 (Fin 1) (float_of_int (tilesize - 1));
             dv = fdiv binary32 (Fin 1) (float_of_int (tilesize - 1));
             nodata = nodata_texel no_data internalFormat
         in map_option
              (map_sum id
                 (\<lambda>st. Some \<lparr>size_s = tilesize, size_t = tilesize,
                              internalTextureFormat = internalFormat, writes = snd st\<rparr>))
              (float_for
                 (\<lambda>u. float_for
                         (\<lambda>v st. Some (pixel key_extent no_data ts key nodata u v st))
                         dv (Fin 0))
                 du (Fin 0) (layers, []))))"

section \<open>Opening the coverages and setting the dictionary\<close>

text \<open>
  \<open>LandCoverTileSource::initialize\<close>: an option of the configuration is the layer made of
  it and whether \<open>open()\<close> of that layer succeeds.
\<close>

fun initialize_loop :: "(Coverage \<times> bool) list \<Rightarrow> LandCoverTileSource \<Rightarrow> LandCoverTileSource" where
  "initialize_loop [] ts = ts"
| "initialize_loop ((layer, opens) # rest) ts =
     (if \<not> getEnabled layer then initialize_loop rest ts
      else if opens
      then initialize_loop rest
             (ts\<lparr>coverages := coverages ts @ [layer], codemaps := codemaps ts @ [[]]\<rparr>)
      else initialize_loop rest ts)"

definition initialize :: "(Coverage \<times> bool) list \<Rightarrow> nat option \<Rightarrow> int \<Rightarrow> LandCoverTileSource" where
  "initialize options_coverages options_bits tilesize =
     initialize_loop options_coverages
       \<lparr>coverages = [], codemaps = [], bits = options_bits, getPixelsPerTile = tilesize\<rparr>"

text \<open>\<open>LandCoverTileSource::setDictionary\<close>, the loop from index \<open>i\<close>.\<close>

function setDictionary_loop ::
  "(string \<Rightarrow> int option) option \<Rightarrow> nat \<Rightarrow> LandCoverTileSource \<Rightarrow> fault + LandCoverTileSource"
  where
  "setDictionary_loop lcd i ts =
     (if i < length (coverages ts)
      then (let cov = (coverages ts ! i)\<lparr>getDictionary := lcd\<rparr>
            in case vector_at (codemaps ts) i of
                 Inl e \<Rightarrow> Inl e
               | Inr codemap \<Rightarrow>
                   (case buildCodeMap (Some cov) codemap of
                      Inl e \<Rightarrow> Inl e
                    | Inr codemap' \<Rightarrow>
                        setDictionary_loop lcd (Suc i)
                          (ts\<lparr>coverages := (coverages ts)[i := cov],
                               codemaps := (codemaps ts)[i := codemap']\<rparr>)))
      else Inr ts)"
  by pat_completeness auto
termination
  by (relation "measure (\<lambda>(lcd, i, ts). length (coverages ts) - i)") auto

declare setDictionary_loop.simps [simp del]

definition setDictionary ::
  "(string \<Rightarrow> int option) option \<Rightarrow> LandCoverTileSource \<Rightarrow> fault + LandCoverTileSource" where
  "setDictionary lcd ts = setDictionary_loop lcd 0 ts"

section \<open>Notions used to state the properties\<close>

text \<open>
  The positions a loop \<open>for (float x = x0; x <= 1.0f; x += d)\<close> goes through, when it
  ends: \<open>visits d x0 xs\<close> says that they are \<open>xs\<close>, in this order. \<open>run body xs\<close> is the
  body executed at these positions.
\<close>

fun visits :: "fp \<Rightarrow> fp \<Rightarrow> fp list \<Rightarrow> bool" where
  "visits d x [] = (\<not> fle x (Fin 1))"
| "visits d x (y # ys) = (fle x (Fin 1) \<and> y = x \<and> visits d (fadd binary32 x d) ys)"

fun run :: "(fp \<Rightarrow> 'st \<Rightarrow> (fault + 'st) option) \<Rightarrow> fp list \<Rightarrow> 'st \<Rightarrow> (fault + 'st) option" where
  "run body [] st = Some (Inr st)"
| "run body (x # xs) st =
     Option.bind (body x st)
       (\<lambda>res. case res of Inl e \<Rightarrow> Some (Inl e) | Inr st' \<Rightarrow> run body xs st')"

text \<open>The keys from a key up to the root of the grid, the key itself first.\<close>

function ancestors :: "TileKey \<Rightarrow> TileKey list" where
  "ancestors INVALID = []"
| "ancestors (TileKey 0 x y) = [TileKey 0 x y]"
| "ancestors (TileKey (Suc l) x y) = TileKey (Suc l) x y # ancestors (TileKey l (x div 2) (y div 2))"
  by pat_completeness auto
termination
  by (relation "measure getLOD") auto

text \<open>The first key of a list for which the provider has an image, and that image.\<close>

fun first_image :: "(TileKey \<Rightarrow> GeoImage option) \<Rightarrow> TileKey list \<Rightarrow> (TileKey \<times> GeoImage) option" where
  "first_image prov [] = None"
| "first_image prov (k # ks) =
     (case prov k of Some im \<Rightarrow> Some (k, im) | None \<Rightarrow> first_image prov ks)"

text \<open>The binding of a coverage to the tile: what \<open>load\<close> makes of a new \<open>ILayer\<close>.\<close>

definition binding :: "(TileKey \<Rightarrow> GeoExtent) \<Rightarrow> TileKey \<Rightarrow> Coverage \<Rightarrow> ILayer" where
  "binding key_extent key cov = load key_extent key cov ILayer_new"

text \<open>
  The lookup of a code in a translation table, in the words of the specification: a code
  beyond the table, or whose entry is the sentinel, is unmapped.
\<close>

definition lookup :: "CodeMap \<Rightarrow> int \<Rightarrow> int option" where
  "lookup table code =
     (if to_size_t code < length table \<and> 0 \<le> table ! to_size_t code
      then Some (table ! to_size_t code) else None)"

definition in_unit :: "fp \<Rightarrow> bool" where
  "in_unit x = (fle (Fin 0) x \<and> fle x (Fin 1))"

text \<open>
  What the coverage of index \<open>L\<close> offers at \<open>(u, v)\<close>: its sample with the translated
  code, when it is bound, the mapped coordinate is in the unit square, the sample is not
  the no-data value, and its code is mapped by the table of the coverage.
\<close>

definition offer ::
  "(TileKey \<Rightarrow> GeoExtent) \<Rightarrow> fp \<Rightarrow> LandCoverTileSource \<Rightarrow> TileKey \<Rightarrow> nat \<Rightarrow> fp \<Rightarrow> fp \<Rightarrow> Vec4 option"
  where
  "offer key_extent no_data ts key L u v =
     (let b = binding key_extent key (coverages ts ! L)
      in case image_of b of
           None \<Rightarrow> None
         | Some im \<Rightarrow>
             (let cov_x = fadd binary32 (fmul binary32 (scale b) u) (bias_x b);
                  cov_y = fadd binary32 (fmul binary32 (scale b) v) (bias_y b);
                  texel = read im cov_x cov_y
              in if in_unit cov_x \<and> in_unit cov_y \<and> fneq (red texel) no_data
                 then (case raw_code (red texel) of
                         Inl e \<Rightarrow> None
                       | Inr code \<Rightarrow>
                           (case lookup (codemaps ts ! L) code of
                              None \<Rightarrow> None
                            | Some value \<Rightarrow> Some (set_red texel (float_of_int value))))
                 else None))"

text \<open>The texel of the composite at \<open>(u, v)\<close>: the offer of the highest index, scanned first.\<close>

fun first_offer :: "(nat \<Rightarrow> Vec4 option) \<Rightarrow> nat \<Rightarrow> Vec4 option" where
  "first_offer f 0 = None"
| "first_offer f (Suc L) = (case f L of Some texel \<Rightarrow> Some texel | None \<Rightarrow> first_offer f L)"

definition composite_texel ::
  "(TileKey \<Rightarrow> GeoExtent) \<Rightarrow> fp \<Rightarrow> LandCoverTileSource \<Rightarrow> TileKey \<Rightarrow> fp \<Rightarrow> fp \<Rightarrow> Vec4" where
  "composite_texel key_extent no_data ts key u v =
     (case first_offer (\<lambda>L. offer key_extent no_data ts key L u v) (length (coverages ts)) of
        Some texel \<Rightarrow> texel
      | None \<Rightarrow> nodata_texel no_data
                  (if bits ts = Some 16 then GL_LUMINANCE16F_ARB else GL_LUMINANCE32F_ARB))"

text \<open>
  The layers of a composite under way: each is still new, or is the binding of its
  coverage.
\<close>

definition layers_ok ::
  "(TileKey \<Rightarrow> GeoExtent) \<Rightarrow> LandCoverTileSource \<Rightarrow> TileKey \<Rightarrow> ILayer list \<Rightarrow> bool" where
  "layers_ok key_extent ts key layers =
     (length layers = length (coverages ts) \<and>
      (\<forall>L < length layers. layers ! L = ILayer_new
          \<or> layers ! L = binding key_extent key (coverages ts ! L)))"

text \<open>
  The mappings of a coverage whose class name the dictionary resolves, as pairs of a raw
  value and the value of the class, and the entry of the table they give at an index: the
  class value of the last such mapping with that raw value, and the unmapped sentinel when
  there is none.
\<close>

fun resolved :: "(string \<Rightarrow> int option) \<Rightarrow> (int \<times> string) list \<Rightarrow> (int \<times> int) list" where
  "resolved dict [] = []"
| "resolved dict ((v, name) # ms) =
     (case dict name of None \<Rightarrow> resolved dict ms | Some c \<Rightarrow> (v, c) # resolved dict ms)"

definition table_entry :: "(string \<Rightarrow> int option) \<Rightarrow> (int \<times> string) list \<Rightarrow> nat \<Rightarrow> int" where
  "table_entry dict ms i = (case map_of (rev (resolved dict ms)) (int i) of None \<Rightarrow> - 1 | Some c \<Rightarrow> c)"

text \<open>
  Extents whose four numbers are finite. \<open>quadrant_of child parent\<close> says that the child
  is one of the four quarters of the parent (the grid is quad-subdivided); \<open>nested_in tile
  anc\<close> says that the tile lies in the ancestor and has its proportions.
\<close>

fun fin_of :: "fp \<Rightarrow> rat option" where
  "fin_of (Fin x) = Some x"
| "fin_of _ = None"

definition finite_extent :: "GeoExtent \<Rightarrow> (rat \<times> rat \<times> rat \<times> rat) option" where
  "finite_extent e =
     (case (fin_of (xMin e), fin_of (yMin e), fin_of (width e), fin_of (height e)) of
        (Some x, Some y, Some w, Some h) \<Rightarrow> Some (x, y, w, h)
      | _ \<Rightarrow> None)"

definition quadrant_of :: "GeoExtent \<Rightarrow> GeoExtent \<Rightarrow> bool" where
  "quadrant_of child parent =
     (case (finite_extent child, finite_extent parent) of
        (Some (x, y, w, h), Some (X, Y, W, H)) \<Rightarrow>
          0 < w \<and> 0 < h \<and> W = 2 * w \<and> H = 2 * h \<and> (x = X \<or> x = X + w) \<and> (y = Y \<or> y = Y + h)
      | _ \<Rightarrow> False)"

definition nested_in :: "GeoExtent \<Rightarrow> GeoExtent \<Rightarrow> bool" where
  "nested_in tile anc =
     (case (finite_extent tile, finite_extent anc) of
        (Some (x, y, w, h), Some (X, Y, W, H)) \<Rightarrow>
          0 < w \<and> 0 < h \<and> X \<le> x \<and> x + w \<le> X + W \<and> Y \<le> y \<and> y + h \<le> Y + H \<and> w * H = h * W
      | _ \<Rightarrow> False)"

text \<open>The state of the loops: the layers, and the texels written so far.\<close>

definition writes_ok ::
  "(TileKey \<Rightarrow> GeoExtent) \<Rightarrow> fp \<Rightarrow> LandCoverTileSource \<Rightarrow> TileKey
     \<Rightarrow> ILayer list \<times> (Vec4 \<times> fp \<times> fp) list \<Rightarrow> bool" where
  "writes_ok key_extent no_data ts key st =
     (layers_ok key_extent ts key (fst st) \<and>
      (\<forall>(texel, u, v) \<in> set (snd st). texel = composite_texel key_extent no_data ts key u v))"

text \<open>
  A tile source all of whose samples have a code: no sample of an image bound to the tile
  is a value whose conversion \<open>(int)\<close> is undefined. \<open>createImage\<close> converts only samples
  of these images.
\<close>

definition castable :: "(TileKey \<Rightarrow> GeoExtent) \<Rightarrow> LandCoverTileSource \<Rightarrow> TileKey \<Rightarrow> bool" where
  "castable key_extent ts key =
     (\<forall>L < length (coverages ts). \<forall>im x y.
        image_of (binding key_extent key (coverages ts ! L)) = Some im \<longrightarrow>
        (\<exists>code. raw_code (red (read im x y)) = Inr code))"

section \<open>A grid and coverages to run the definitions on\<close>

text \<open>
  The tiles of level \<open>l\<close> divide the unit square into \<open>2^l\<close> columns and rows. The
  no-data value is the most negative finite \<open>float\<close>. A uniform coverage has one image, at
  the root of the grid, every sample of which is the same.
\<close>

definition grid_extent :: "TileKey \<Rightarrow> GeoExtent" where
  "grid_extent k =
     (case k of
        TileKey l x y \<Rightarrow> \<lparr>xMin = Fin (of_nat x / 2 ^ l), yMin = Fin (of_nat y / 2 ^ l),
                          width = Fin (1 / 2 ^ l), height = Fin (1 / 2 ^ l)\<rparr>
      | INVALID \<Rightarrow> \<lparr>xMin = Fin 0, yMin = Fin 0, width = Fin 0, height = Fin 0\<rparr>)"

definition example_no_data :: fp where
  "example_no_data = Fin (- 340282346638528859811704183484516925440)"

definition uniform_image :: "fp \<Rightarrow> GeoImage" where
  "uniform_image x = \<lparr>getExtent = grid_extent (TileKey 0 0 0),
                       read = (\<lambda>u v. Vec4 x (Fin 0) (Fin 0) (Fin 1))\<rparr>"

definition uniform_coverage :: "fp \<Rightarrow> (int \<times> string) list \<Rightarrow> Coverage" where
  "uniform_coverage x ms =
     \<lparr>getEnabled = True, getVisible = True, isKeyInLegalRange = (\<lambda>k. True),
      createImageOf = (\<lambda>k. if k = TileKey 0 0 0 then Some (uniform_image x) else None),
      getMappings = ms, getDictionary = None\<rparr>"

text \<open>
  Two coverages over the same pixels, both with raw value 1 everywhere: the one of lower
  priority maps it to 99, the one of higher priority to 7.
\<close>

definition two_coverages :: LandCoverTileSource where
  "two_coverages =
     \<lparr>coverages = [uniform_coverage (Fin 1) [(1, ''crop'')],
                   uniform_coverage (Fin 1) [(1, ''forest'')]],
      codemaps = [[- 1, 99], [- 1, 7]], bits = None, getPixelsPerTile = 2\<rparr>"

text \<open>A dictionary of two classes, and mappings one of which names no class of it.\<close>

definition example_dictionary :: "string \<Rightarrow> int option" where
  "example_dictionary name =
     (if name = ''forest'' then Some 7 else if name = ''water'' then Some 9 else None)"

definition example_mappings :: "(int \<times> string) list" where
  "example_mappings = [(1, ''forest''), (3, ''water''), (2, ''tundra'')]"

text \<open>
  Three coverages for the fallback: the one of highest priority has no data anywhere, the
  next has a raw value its table does not map, and the last maps its raw value to 99. And
  two coverages as \<open>initialize\<close> opens them, before any dictionary is set.
\<close>

definition fallback_coverages :: LandCoverTileSource where
  "fallback_coverages =
     \<lparr>coverages = [uniform_coverage (Fin 1) [(1, ''crop'')],
                   uniform_coverage (Fin 2) [(1, ''forest'')],
                   uniform_coverage example_no_data [(1, ''forest'')]],
      codemaps = [[- 1, 99], [- 1, 7], [- 1, 7]], bits = None, getPixelsPerTile = 2\<rparr>"

definition unattached :: "nat option \<Rightarrow> LandCoverTileSource" where
  "unattached options_bits =
     initialize [(uniform_coverage (Fin 1) [(1, ''crop'')], True),
                 (uniform_coverage (Fin 1) [(1, ''forest'')], True)] options_bits 2"

text \<open>
  A tile source with a tile size of 11 and one coverage that has no image, and the ten
  positions its loops go through.
\<close>

definition eleven_pixels :: LandCoverTileSource where
  "eleven_pixels =
     \<lparr>coverages = [(uniform_coverage (Fin 1) [(1, ''forest'')])\<lparr>createImageOf := (\<lambda>k. None)\<rparr>],
      codemaps = [[- 1, 7]], bits = None, getPixelsPerTile = 11\<rparr>"

definition eleven_samples :: "fp list" where
  "eleven_samples =
     [Fin 0, Fin (13421773 / 134217728), Fin (13421773 / 67108864),
      Fin (5033165 / 16777216), Fin (13421773 / 33554432), Fin (1 / 2),
      Fin (5033165 / 8388608), Fin (2936013 / 4194304), Fin (6710887 / 8388608),
      Fin (1887437 / 2097152)]"

text \<open>
  Two coverages as \<open>initialize\<close> opens them, before any dictionary is set, with a tile
  size of 11.
\<close>

definition unattached_eleven :: "nat option \<Rightarrow> LandCoverTileSource" where
  "unattached_eleven options_bits =
     initialize [(uniform_coverage (Fin 1) [(1, ''crop'')], True),
                 (uniform_coverage (Fin 1) [(1, ''forest'')], True)] options_bits 11"

section \<open>The loops\<close>

lemma float_for_run: "visits d x xs \<Longrightarrow> float_for body d x st = run body xs st"
proof (induction xs arbitrary: x st)
  case Nil
  then show ?case by (simp add: float_for.simps)
next
  case (Cons y ys)
  then have x: "fle x (Fin 1)" "y = x" "visits d (fadd binary32 x d) ys" by simp_all
  have "float_for body d (fadd binary32 x d) = run body ys"
    by (rule ext) (rule Cons.IH [OF x(3)])
  then show ?case
    by (subst float_for.simps) (simp add: x)
qed

lemma float_for_run_fun: "visits d x xs \<Longrightarrow> float_for body d x = run body xs"
  by (rule ext) (rule float_for_run)

lemma createImage_run:
  assumes "coverages ts \<noteq> []"
    and "visits (fdiv binary32 (Fin 1) (float_of_int (getPixelsPerTile ts - 1))) (Fin 0) xs"
  shows "createImage key_extent no_data ts key =
     map_option
       (map_sum id
          (\<lambda>st. Some \<lparr>size_s = getPixelsPerTile ts, size_t = getPixelsPerTile ts,
                       internalTextureFormat =
                         (if bits ts = Some 16 then GL_LUMINANCE16F_ARB else GL_LUMINANCE32F_ARB),
                       writes = snd st\<rparr>))
       (run (\<lambda>u. run (\<lambda>v st. Some (pixel key_extent no_data ts key
                  (nodata_texel no_data
                     (if bits ts = Some 16 then GL_LUMINANCE16F_ARB else GL_LUMINANCE32F_ARB))
                  u v st)) xs)
          xs (replicate (length (coverages ts)) ILayer_new, []))"
  using assms(1)
  by (simp add: createImage_def Let_def float_for_run_fun [OF assms(2)])

lemma highest_value_fold_max:
  "fold (\<lambda>(v, name) h. if h < v then v else h) (ms :: (int \<times> string) list) h0
     = fold max (map fst ms) h0"
  by (induction ms arbitrary: h0) (auto simp: max_def)

lemma highest_value_Max: "highest_value ms = Max (set (0 # map fst ms))"
  unfolding highest_value_def highest_value_fold_max
  by (simp only: Max.set_eq_fold)

lemma fold_store_mapping:
  assumes "\<forall>m \<in> set ms. 0 \<le> fst m \<and> nat (fst m) < length t"
  shows "\<exists>t'. fold (store_mapping dict) ms (Inr t) = Inr t' \<and> length t' = length t
           \<and> (\<forall>i < length t. t' ! i =
                 (case map_of (rev (resolved dict ms)) (int i) of None \<Rightarrow> t ! i | Some c \<Rightarrow> c))"
  using assms
proof (induction ms arbitrary: t)
  case Nil
  then show ?case by simp
next
  case (Cons m ms)
  obtain v name where m: "m = (v, name)" by (cases m)
  from Cons.prems have v: "0 \<le> v" "nat v < length t"
    and rest: "\<forall>m \<in> set ms. 0 \<le> fst m \<and> nat (fst m) < length t"
    by (simp_all add: m)
  show ?case
  proof (cases "dict name")
    case None
    then have "store_mapping dict m (Inr t) = Inr t"
      by (simp add: store_mapping_def m)
    with Cons.IH [OF rest] None show ?thesis
      by (simp add: m)
  next
    case (Some c)
    let ?t1 = "t[nat v := c]"
    have step: "store_mapping dict m (Inr t) = Inr ?t1"
      using v by (simp add: store_mapping_def m Some codemap_store_def)
    have rest1: "\<forall>m \<in> set ms. 0 \<le> fst m \<and> nat (fst m) < length ?t1"
      using rest by simp
    from Cons.IH [OF rest1] obtain t' where t':
      "fold (store_mapping dict) ms (Inr ?t1) = Inr t'" "length t' = length ?t1"
      "\<forall>i < length ?t1. t' ! i =
         (case map_of (rev (resolved dict ms)) (int i) of None \<Rightarrow> ?t1 ! i | Some c \<Rightarrow> c)"
      by blast
    have "\<forall>i < length t. t' ! i =
         (case map_of (rev (resolved dict (m # ms))) (int i) of None \<Rightarrow> t ! i | Some c \<Rightarrow> c)"
    proof (intro allI impI)
      fix i assume i: "i < length t"
      show "t' ! i = (case map_of (rev (resolved dict (m # ms))) (int i) of None \<Rightarrow> t ! i | Some c \<Rightarrow> c)"
      proof (cases "map_of (rev (resolved dict ms)) (int i)")
        case None
        then show ?thesis
          using t'(3) i v by (auto simp: m Some map_add_def nth_list_update)
      next
        case (Some c')
        then show ?thesis
          using t'(3) i by (simp add: m \<open>dict name = Some c\<close> map_add_def)
      qed
    qed
    with t' step show ?thesis by (simp add: m)
  qed
qed

lemma set_resolved:
  "set (resolved dict ms) = {(v, c). \<exists>name. (v, name) \<in> set ms \<and> dict name = Some c}"
  by (induction ms rule: resolved.induct) (auto split: option.splits)

lemma distinct_resolved:
  "distinct (map fst ms) \<Longrightarrow> distinct (map fst (resolved dict ms))"
proof (induction ms rule: resolved.induct)
  case (1 dict)
  then show ?case by simp
next
  case (2 dict v name ms)
  then have "v \<notin> fst ` set (resolved dict ms)"
    by (force simp: set_resolved)
  with 2 show ?case by (auto split: option.splits)
qed

lemma table_entry_distinct:
  assumes "distinct (map fst ms)" and "(v, name) \<in> set ms" and "0 \<le> v"
  shows "table_entry dict ms (nat v) = (case dict name of None \<Rightarrow> - 1 | Some c \<Rightarrow> c)"
proof -
  have d: "distinct (map fst (rev (resolved dict ms)))"
    using distinct_resolved [OF assms(1)] by (simp add: rev_map [symmetric])
  have same: "name' = name" if "(v, name') \<in> set ms" for name'
    using assms(1,2) that by (meson eq_key_imp_eq_value)
  show ?thesis
  proof (cases "dict name")
    case None
    have "v \<notin> fst ` set (rev (resolved dict ms))"
      using None same by (auto simp: set_resolved)
    then have "map_of (rev (resolved dict ms)) v = None"
      by (simp add: map_of_eq_None_iff)
    with None assms(3) show ?thesis by (simp add: table_entry_def)
  next
    case (Some c)
    with assms(2) have "(v, c) \<in> set (rev (resolved dict ms))"
      by (auto simp: set_resolved)
    with d have "map_of (rev (resolved dict ms)) v = Some c"
      by simp
    with Some assms(3) show ?thesis by (simp add: table_entry_def)
  qed
qed

lemma highest_value_bounds:
  "0 \<le> highest_value ms" "m \<in> set ms \<Longrightarrow> fst m \<le> highest_value ms"
  unfolding highest_value_Max by simp_all

lemma highest_value_nonempty:
  assumes "ms \<noteq> []" and "\<forall>m \<in> set ms. 0 \<le> fst m"
  shows "highest_value ms = Max (fst ` set ms)"
proof -
  obtain m where m: "m \<in> set ms" using assms(1) by (cases ms) auto
  have "0 \<le> Max (fst ` set ms)"
    using m assms(2) by (meson List.finite_set Max_ge finite_imageI imageI order_trans)
  then show ?thesis
    using assms(1) unfolding highest_value_Max by (simp add: max_def)
qed

lemma highest_value_less:
  assumes "\<forall>m \<in> set ms. fst m < b" and "0 < b"
  shows "highest_value ms < b"
  unfolding highest_value_Max using assms by simp

lemma ancestor_walk_Some [simp]: "ancestor_walk prov k (Some im) = Some im"
  by (subst ancestor_walk.simps) simp

lemma ancestor_walk_first:
  "ancestor_walk prov k None = map_option snd (first_image prov (ancestors k))"
proof (induction k rule: ancestors.induct)
  case 1
  show ?case by (subst ancestor_walk.simps) simp
next
  case (2 x y)
  show ?case
    by (subst ancestor_walk.simps, subst ancestor_walk.simps) (simp split: option.splits)
next
  case (3 l x y)
  show ?case
  proof (cases "prov (TileKey (Suc l) x y)")
    case None
    with 3 show ?thesis by (subst ancestor_walk.simps) simp
  next
    case (Some im)
    then show ?thesis by (subst ancestor_walk.simps) simp
  qed
qed

lemma first_image_None: "first_image prov ks = None \<longleftrightarrow> (\<forall>k \<in> set ks. prov k = None)"
  by (induction ks) (auto split: option.splits)

lemma first_image_Some:
  "first_image prov ks = Some (A, im) \<Longrightarrow> A \<in> set ks \<and> prov A = Some im"
  by (induction ks) (auto split: option.splits)

lemma binding_closed:
  "\<not> (getEnabled c \<and> getVisible c \<and> isKeyInLegalRange c key) \<Longrightarrow>
     binding key_extent key c = ILayer_new\<lparr>valid := False\<rparr>"
  by (auto simp: binding_def load_def ILayer_new_def)

lemma binding_open:
  "getEnabled c \<and> getVisible c \<and> isKeyInLegalRange c key \<Longrightarrow>
     binding key_extent key c =
       (case first_image (createImageOf c) (ancestors key) of
          None \<Rightarrow> ILayer_new\<lparr>valid := False\<rparr>
        | Some (A, im) \<Rightarrow>
            \<lparr>image_of = Some im,
             scale = narrow (fdiv binary64 (width (key_extent key)) (width (getExtent im))),
             bias_x = narrow (fdiv binary64
                         (fsub binary64 (xMin (key_extent key)) (xMin (getExtent im)))
                         (width (getExtent im))),
             bias_y = narrow (fdiv binary64
                         (fsub binary64 (yMin (key_extent key)) (yMin (getExtent im)))
                         (height (getExtent im))),
             valid = True\<rparr>)"
  by (auto simp: binding_def load_def ILayer_new_def ancestor_walk_first split: option.splits)

lemma binding_valid_image: "valid (binding key_extent key c) \<longleftrightarrow> image_of (binding key_extent key c) \<noteq> None"
  by (auto simp: binding_def load_def ILayer_new_def Let_def split: option.splits)

lemma nested_in_self:
  "finite_extent e = Some (x, y, w, h) \<Longrightarrow> 0 < w \<Longrightarrow> 0 < h \<Longrightarrow> nested_in e e"
  by (simp add: nested_in_def mult.commute)

lemma nested_in_quadrant:
  assumes "nested_in tile a" and "quadrant_of a p"
  shows "nested_in tile p"
proof -
  from assms(1) obtain x y w h X Y W H where
    t: "finite_extent tile = Some (x, y, w, h)" and a: "finite_extent a = Some (X, Y, W, H)"
    and n: "0 < w" "0 < h" "X \<le> x" "x + w \<le> X + W" "Y \<le> y" "y + h \<le> Y + H" "w * H = h * W"
    by (auto simp: nested_in_def split: option.splits)
  from assms(2) a obtain X' Y' W' H' where
    p: "finite_extent p = Some (X', Y', W', H')"
    and q: "0 < W" "0 < H" "W' = 2 * W" "H' = 2 * H" "X = X' \<or> X = X' + W" "Y = Y' \<or> Y = Y' + H"
    by (auto simp: quadrant_of_def split: option.splits)
  have "w * H' = h * W'"
    using n(7) q(3,4) by simp
  moreover have "X' \<le> x" "x + w \<le> X' + W'" "Y' \<le> y" "y + h \<le> Y' + H'"
    using n q by auto
  ultimately show ?thesis
    using n(1,2) by (simp add: nested_in_def t p)
qed

lemma nested_in_ancestors:
  assumes "nested_in tile (key_extent k)"
    and "\<forall>k' \<in> set (ancestors k). key_valid (createParentKey k') \<longrightarrow>
           quadrant_of (key_extent k') (key_extent (createParentKey k'))"
    and "A \<in> set (ancestors k)"
  shows "nested_in tile (key_extent A)"
  using assms
proof (induction k rule: ancestors.induct)
  case 1
  then show ?case by simp
next
  case (2 x y)
  then show ?case by simp
next
  case (3 l x y)
  let ?k = "TileKey (Suc l) x y" and ?p = "TileKey l (x div 2) (y div 2)"
  show ?case
  proof (cases "A = ?k")
    case True
    with 3(2) show ?thesis by simp
  next
    case False
    with 3(4) have A: "A \<in> set (ancestors ?p)" by simp
    have "quadrant_of (key_extent ?k) (key_extent ?p)"
      using 3(3) by simp
    then have "nested_in tile (key_extent ?p)"
      by (rule nested_in_quadrant [OF 3(2)])
    moreover have "\<forall>k' \<in> set (ancestors ?p). key_valid (createParentKey k') \<longrightarrow>
           quadrant_of (key_extent k') (key_extent (createParentKey k'))"
      using 3(3) by simp
    ultimately show ?thesis
      using A by (rule 3(1))
  qed
qed

lemma unit_square:
  fixes x y w h X Y W H u v :: rat
  assumes "0 < w" "0 < h" "X \<le> x" "x + w \<le> X + W" "Y \<le> y" "y + h \<le> Y + H" "w * H = h * W"
    and "0 \<le> u" "u \<le> 1" "0 \<le> v" "v \<le> 1"
  shows "0 < w / W \<and> w / W \<le> 1
       \<and> 0 \<le> w / W * u + (x - X) / W \<and> w / W * u + (x - X) / W \<le> 1
       \<and> 0 \<le> w / W * v + (y - Y) / H \<and> w / W * v + (y - Y) / H \<le> 1"
proof -
  have W: "0 < W" and H: "0 < H" using assms by auto
  have wW: "w \<le> W" and hH: "h \<le> H" using assms by auto
  have r: "w / W = h / H"
    using W H assms(7) by (simp add: field_simps)
  have wu: "0 \<le> w * u" "w * u \<le> w"
    using assms(1,8,9) by (simp_all add: mult_left_le)
  have hv: "0 \<le> h * v" "h * v \<le> h"
    using assms(2,10,11) by (simp_all add: mult_left_le)
  have ex: "w / W * u + (x - X) / W = (w * u + (x - X)) / W"
    by (simp add: add_divide_distrib)
  have ey: "w / W * v + (y - Y) / H = (h * v + (y - Y)) / H"
    unfolding r by (simp add: add_divide_distrib)
  have "0 \<le> (w * u + (x - X)) / W" "(w * u + (x - X)) / W \<le> 1"
    using W wu assms(3,4) by (simp_all add: divide_le_eq)
  moreover have "0 \<le> (h * v + (y - Y)) / H" "(h * v + (y - Y)) / H \<le> 1"
    using H hv assms(5,6) by (simp_all add: divide_le_eq)
  moreover have "0 < w / W" "w / W \<le> 1"
    using W assms(1) wW by simp_all
  ultimately show ?thesis
    unfolding ex ey by blast
qed

lemmas float_for_induct =
  float_for.raw_induct [where xa = "(((body, d), x), st)" for body d x st, unfolded prod.case]


lemma float_for_invariant:
  assumes run: "float_for body d x st = Some res"
    and init: "I st"
    and body: "\<And>x st res. I st \<Longrightarrow> body x st = Some res \<Longrightarrow>
                 (case res of Inl e \<Rightarrow> E e | Inr st' \<Rightarrow> I st')"
  shows "case res of Inl e \<Rightarrow> E e | Inr st' \<Rightarrow> I st'"
proof -
  have "body = body \<longrightarrow> I st \<longrightarrow> (case res of Inl e \<Rightarrow> E e | Inr st' \<Rightarrow> I st')"
  proof (rule float_for_induct
      [where P = "\<lambda>b d x st res. b = body \<longrightarrow> I st \<longrightarrow> (case res of Inl e \<Rightarrow> E e | Inr st' \<Rightarrow> I st')"])
    show "float_for body d x st = Some res" by fact
  next
    fix loop :: "(fp \<Rightarrow> 'a \<Rightarrow> (fault + 'a) option) \<Rightarrow> fp \<Rightarrow> fp \<Rightarrow> 'a \<Rightarrow> (fault + 'a) option"
      and body' d x st res
    assume IH: "\<And>b d x st y. loop b d x st = Some y \<Longrightarrow>
        b = body \<longrightarrow> I st \<longrightarrow> (case y of Inl e \<Rightarrow> E e | Inr st' \<Rightarrow> I st')"
      and eq: "(if fle x (Fin 1)
         then Option.bind (body' x st)
               (\<lambda>res. case res of Inl e \<Rightarrow> Some (Inl e)
                      | Inr st' \<Rightarrow> loop body' d (fadd binary32 x d) st')
         else Some (Inr st)) = Some res"
    show "body' = body \<longrightarrow> I st \<longrightarrow> (case res of Inl e \<Rightarrow> E e | Inr st' \<Rightarrow> I st')"
    proof (intro impI)
      assume b: "body' = body" and i: "I st"
      show "case res of Inl e \<Rightarrow> E e | Inr st' \<Rightarrow> I st'"
      proof (cases "fle x (Fin 1)")
        case False
        with eq i show ?thesis by auto
      next
        case True
        with eq obtain r where r: "body' x st = Some r"
          and k: "(case r of Inl e \<Rightarrow> Some (Inl e)
                   | Inr st' \<Rightarrow> loop body' d (fadd binary32 x d) st') = Some res"
          by (auto simp: bind_eq_Some_conv)
        from body [OF i r [unfolded b]] have post: "case r of Inl e \<Rightarrow> E e | Inr st' \<Rightarrow> I st'" .
        show ?thesis
        proof (cases r)
          case (Inl e)
          with k post show ?thesis by auto
        next
          case (Inr st')
          with k have "loop body' d (fadd binary32 x d) st' = Some res" by simp
          from IH [OF this] b post Inr show ?thesis by simp
        qed
      qed
    qed
  qed
  with init show ?thesis by blast
qed

lemma sample_layer_offer:
  assumes "sample_layer no_data (codemaps ts) L (binding key_extent key (coverages ts ! L)) u v = Inr r"
  shows "offer key_extent no_data ts key L u v = r"
  using assms
  by (auto simp: sample_layer_def offer_def Let_def in_unit_def translate_def lookup_def
      vector_at_def split: option.splits sum.splits if_splits)

lemma sample_layer_fault:
  assumes "sample_layer no_data cms L layer u v = Inl e"
    and "L < length cms" and "image_of layer \<noteq> None"
  shows "e = UndefinedCast"
proof -
  have rc: "raw_code x = Inl e' \<Longrightarrow> e' = UndefinedCast" for x e'
    by (cases x; cases "fmul binary32 x (Fin 255)")
       (auto simp: raw_code_def Let_def split: if_splits)
  show ?thesis
    using assms rc
    by (auto simp: sample_layer_def Let_def translate_def vector_at_def
        split: option.splits sum.splits if_splits)
qed

lemma layers_ok_update:
  assumes "layers_ok key_extent ts key layers" and "L < length layers"
  shows "layers_ok key_extent ts key (layers[L := binding key_extent key (coverages ts ! L)])"
  using assms by (auto simp: layers_ok_def nth_list_update)

lemma layer_step:
  assumes ok: "layers_ok key_extent ts key layers" and L: "L < length layers"
    and v: "valid (layers ! L)"
  shows "(if Option.is_none (image_of (layers ! L))
          then load key_extent key (coverages ts ! L) (layers ! L) else layers ! L)
         = binding key_extent key (coverages ts ! L)"
proof -
  from ok L have "layers ! L = ILayer_new \<or> layers ! L = binding key_extent key (coverages ts ! L)"
    by (simp add: layers_ok_def)
  then show ?thesis
  proof
    assume "layers ! L = ILayer_new"
    then show ?thesis by (simp add: binding_def ILayer_new_def Option.is_none_def)
  next
    assume b: "layers ! L = binding key_extent key (coverages ts ! L)"
    with v have "image_of (layers ! L) \<noteq> None"
      by (simp add: binding_valid_image)
    then have "\<not> Option.is_none (image_of (layers ! L))"
      by (simp add: Option.is_none_def)
    then show ?thesis using b by (simp only: if_False)
  qed
qed

lemma layer_invalid:
  assumes ok: "layers_ok key_extent ts key layers" and L: "L < length layers"
    and v: "\<not> valid (layers ! L)"
  shows "layers ! L = binding key_extent key (coverages ts ! L)"
  using assms by (auto simp: layers_ok_def ILayer_new_def)

lemma offer_unbound:
  "\<not> valid (binding key_extent key (coverages ts ! L)) \<Longrightarrow> offer key_extent no_data ts key L u v = None"
  by (simp add: offer_def binding_valid_image)

lemma scan_layers_spec:
  assumes "layers_ok key_extent ts key layers" and "n \<le> length layers"
    and "scan_layers key_extent no_data ts key u v n layers = Inr (layers', w)"
  shows "layers_ok key_extent ts key layers'
       \<and> w = first_offer (\<lambda>L. offer key_extent no_data ts key L u v) n"
  using assms
proof (induction n arbitrary: layers)
  case 0
  then show ?case by simp
next
  case (Suc L)
  then have L: "L < length layers" and ok: "layers_ok key_extent ts key layers" by simp_all
  let ?b = "binding key_extent key (coverages ts ! L)"
  show ?case
  proof (cases "valid (layers ! L)")
    case False
    then have "layers ! L = ?b" by (rule layer_invalid [OF ok L])
    with False have off: "offer key_extent no_data ts key L u v = None"
      by (simp add: offer_unbound)
    from Suc.prems(3) False
    have "scan_layers key_extent no_data ts key u v L layers = Inr (layers', w)"
      by simp
    from Suc.IH [OF ok _ this] L off show ?thesis by simp
  next
    case True
    let ?layers = "layers[L := ?b]"
    have ok': "layers_ok key_extent ts key ?layers"
      by (rule layers_ok_update [OF ok L])
    have len: "L \<le> length ?layers" using L by simp
    note step = layer_step [OF ok L True]
    show ?thesis
    proof (cases "valid ?b")
      case False
      then have off: "offer key_extent no_data ts key L u v = None"
        by (simp add: offer_unbound)
      from Suc.prems(3) True False
      have "scan_layers key_extent no_data ts key u v L ?layers = Inr (layers', w)"
        by (simp add: step Let_def)
      from Suc.IH [OF ok' len this] off show ?thesis by simp
    next
      case vb: True
      show ?thesis
      proof (cases "sample_layer no_data (codemaps ts) L ?b u v")
        case (Inl e)
        with Suc.prems(3) True vb show ?thesis
          by (simp add: step Let_def)
      next
        case (Inr r)
        note off = sample_layer_offer [OF Inr]
        show ?thesis
        proof (cases r)
          case None
          with Suc.prems(3) True vb Inr
          have "scan_layers key_extent no_data ts key u v L ?layers = Inr (layers', w)"
            by (simp add: step Let_def)
          from Suc.IH [OF ok' len this] off None show ?thesis by simp
        next
          case (Some texel)
          with Suc.prems(3) True vb Inr have "layers' = ?layers" "w = Some texel"
            by (simp_all add: step Let_def)
          with ok' off Some show ?thesis by simp
        qed
      qed
    qed
  qed
qed

lemma scan_layers_fault:
  assumes "layers_ok key_extent ts key layers" and "n \<le> length layers"
    and "length (codemaps ts) = length (coverages ts)"
    and "scan_layers key_extent no_data ts key u v n layers = Inl e"
  shows "e = UndefinedCast"
  using assms
proof (induction n arbitrary: layers)
  case 0
  then show ?case by simp
next
  case (Suc L)
  then have L: "L < length layers" and ok: "layers_ok key_extent ts key layers" by simp_all
  let ?b = "binding key_extent key (coverages ts ! L)"
  have Lc: "L < length (codemaps ts)"
    using L ok Suc.prems(3) by (simp add: layers_ok_def)
  show ?case
  proof (cases "valid (layers ! L)")
    case False
    with Suc.prems(4)
    have "scan_layers key_extent no_data ts key u v L layers = Inl e"
      by simp
    from Suc.IH [OF ok _ Suc.prems(3) this] L show ?thesis by simp
  next
    case True
    let ?layers = "layers[L := ?b]"
    have ok': "layers_ok key_extent ts key ?layers"
      by (rule layers_ok_update [OF ok L])
    have len: "L \<le> length ?layers" using L by simp
    note step = layer_step [OF ok L True]
    show ?thesis
    proof (cases "valid ?b")
      case False
      with Suc.prems(4) True
      have "scan_layers key_extent no_data ts key u v L ?layers = Inl e"
        by (simp add: step Let_def)
      from Suc.IH [OF ok' len Suc.prems(3) this] show ?thesis .
    next
      case vb: True
      then have im: "image_of ?b \<noteq> None" by (simp add: binding_valid_image)
      show ?thesis
      proof (cases "sample_layer no_data (codemaps ts) L ?b u v")
        case (Inl e')
        with Suc.prems(4) True vb have "e' = e"
          by (simp add: step Let_def)
        with sample_layer_fault [OF Inl Lc im] show ?thesis by simp
      next
        case (Inr r)
        show ?thesis
        proof (cases r)
          case None
          with Suc.prems(4) True vb Inr
          have "scan_layers key_extent no_data ts key u v L ?layers = Inl e"
            by (simp add: step Let_def)
          from Suc.IH [OF ok' len Suc.prems(3) this] show ?thesis .
        next
          case (Some texel)
          with Suc.prems(4) True vb Inr show ?thesis
            by (simp add: step Let_def)
        qed
      qed
    qed
  qed
qed

lemma pixel_spec:
  assumes "writes_ok key_extent no_data ts key st"
    and "pixel key_extent no_data ts key
           (nodata_texel no_data
              (if bits ts = Some 16 then GL_LUMINANCE16F_ARB else GL_LUMINANCE32F_ARB)) u v st
         = Inr st'"
  shows "writes_ok key_extent no_data ts key st'"
proof -
  from assms(1) have ok: "layers_ok key_extent ts key (fst st)"
    and ws: "\<forall>(texel, u, v) \<in> set (snd st). texel = composite_texel key_extent no_data ts key u v"
    by (simp_all add: writes_ok_def)
  from ok have len: "length (fst st) = length (coverages ts)"
    by (simp add: layers_ok_def)
  from assms(2) obtain layers' w where
    sc: "scan_layers key_extent no_data ts key u v (length (fst st)) (fst st) = Inr (layers', w)"
    by (auto simp: pixel_def split: sum.splits)
  from scan_layers_spec [OF ok _ sc]
  have ok': "layers_ok key_extent ts key layers'"
    and w: "w = first_offer (\<lambda>L. offer key_extent no_data ts key L u v) (length (coverages ts))"
    by (simp_all add: len)
  from assms(2) sc have "st' = (layers', snd st @
      [(case w of Some texel \<Rightarrow> texel
        | None \<Rightarrow> nodata_texel no_data
            (if bits ts = Some 16 then GL_LUMINANCE16F_ARB else GL_LUMINANCE32F_ARB), u, v)])"
    by (auto simp: pixel_def split: option.splits)
  then show ?thesis
    using ok' ws w by (auto simp: writes_ok_def composite_texel_def)
qed

lemma pixel_fault:
  assumes "layers_ok key_extent ts key (fst st)"
    and "length (codemaps ts) = length (coverages ts)"
    and "pixel key_extent no_data ts key nodata u v st = Inl e"
  shows "e = UndefinedCast"
proof -
  from assms(3) have
    "scan_layers key_extent no_data ts key u v (length (fst st)) (fst st) = Inl e"
    by (auto simp: pixel_def split: sum.splits option.splits)
  from scan_layers_fault [OF assms(1) _ assms(2) this] show ?thesis by simp
qed

lemma layers_ok_new: "layers_ok key_extent ts key (replicate (length (coverages ts)) ILayer_new)"
  by (simp add: layers_ok_def)

lemma createImage_loops:
  assumes "createImage key_extent no_data ts key = Some res"
    and "coverages ts \<noteq> []"
  shows "case res of
           Inl e \<Rightarrow> length (codemaps ts) = length (coverages ts) \<longrightarrow> e = UndefinedCast
         | Inr None \<Rightarrow> False
         | Inr (Some out) \<Rightarrow>
             size_s out = getPixelsPerTile ts \<and> size_t out = getPixelsPerTile ts
             \<and> internalTextureFormat out
                 = (if bits ts = Some 16 then GL_LUMINANCE16F_ARB else GL_LUMINANCE32F_ARB)
             \<and> (\<forall>(texel, u, v) \<in> set (writes out).
                   texel = composite_texel key_extent no_data ts key u v)"
proof -
  let ?fmt = "if bits ts = Some 16 then GL_LUMINANCE16F_ARB else GL_LUMINANCE32F_ARB"
  let ?d = "fdiv binary32 (Fin 1) (float_of_int (getPixelsPerTile ts - 1))"
  let ?px = "\<lambda>u v st. Some (pixel key_extent no_data ts key (nodata_texel no_data ?fmt) u v st)"
  let ?row = "\<lambda>u. float_for (?px u) ?d (Fin 0)"
  let ?I = "writes_ok key_extent no_data ts key"
  let ?E = "\<lambda>e. length (codemaps ts) = length (coverages ts) \<longrightarrow> e = UndefinedCast"
  from assms obtain r where
    r: "float_for ?row ?d (Fin 0) (replicate (length (coverages ts)) ILayer_new, []) = Some r"
    and res: "res = map_sum id (\<lambda>st. Some \<lparr>size_s = getPixelsPerTile ts,
                 size_t = getPixelsPerTile ts, internalTextureFormat = ?fmt,
                 writes = snd st\<rparr>) r"
    by (auto simp: createImage_def Let_def)
  have px: "case res of Inl e \<Rightarrow> ?E e | Inr st' \<Rightarrow> ?I st'"
    if "?I st" and "?px u v st = Some res" for u v st res
  proof (cases res)
    case (Inl e)
    with that show ?thesis
      by (auto simp: writes_ok_def dest: pixel_fault)
  next
    case (Inr st')
    with that show ?thesis
      by (auto dest: pixel_spec)
  qed
  have row: "case res of Inl e \<Rightarrow> ?E e | Inr st' \<Rightarrow> ?I st'"
    if "?I st" and "?row u st = Some res" for u st res
    using that(2) that(1) px by (rule float_for_invariant)
  have init: "?I (replicate (length (coverages ts)) ILayer_new, [])"
    by (simp add: writes_ok_def layers_ok_new)
  have "case r of Inl e \<Rightarrow> ?E e | Inr st' \<Rightarrow> ?I st'"
    using r init row by (rule float_for_invariant)
  then show ?thesis
    unfolding res by (cases r) (auto simp: writes_ok_def)
qed

section \<open>Bounds of the rounding\<close>

lemma pow2_powi: "pow2 k = 2 powi k"
proof (cases "0 \<le> k")
  case True
  then show ?thesis by (simp add: pow2_def power_int_def)
next
  case False
  then show ?thesis
    by (simp add: pow2_def power_int_def inverse_eq_divide power_one_over)
qed

lemma pow2_pos: "0 < pow2 k"
  by (simp add: pow2_powi)

lemma pow2_add: "pow2 (i + j) = pow2 i * pow2 j"
  by (simp add: pow2_powi power_int_add)

lemma pow2_mono: "i \<le> j \<Longrightarrow> pow2 i \<le> pow2 j"
  by (simp add: pow2_powi power_int_increasing)

lemma pow2_strict_mono: "i < j \<Longrightarrow> pow2 i < pow2 j"
  by (simp add: pow2_powi power_int_strict_increasing)

lemma pow2_of_int: "0 \<le> k \<Longrightarrow> pow2 k = of_int (2 ^ nat k)"
  by (simp add: pow2_def)

lemma bitlen_upper: "n < 2 ^ bitlen n"
proof (induction n rule: bitlen.induct)
  case (1 n)
  show ?case
  proof (cases "n = 0")
    case True
    then show ?thesis by (simp add: bitlen.simps)
  next
    case False
    with 1 have "n div 2 < 2 ^ bitlen (n div 2)" by simp
    then have "n < 2 * 2 ^ bitlen (n div 2)" by linarith
    with False show ?thesis by (subst bitlen.simps) simp
  qed
qed

lemma bitlen_pos: "0 < n \<Longrightarrow> 0 < bitlen n"
  by (subst bitlen.simps) simp

lemma bitlen_lower: "0 < n \<Longrightarrow> 2 ^ (bitlen n - 1) \<le> n"
proof (induction n rule: bitlen.induct)
  case (1 n)
  then have n: "n \<noteq> 0" by simp
  show ?case
  proof (cases "n div 2 = 0")
    case True
    then have "bitlen n = 1"
      using n by (subst bitlen.simps) (simp add: bitlen.simps)
    with 1(2) show ?thesis by simp
  next
    case False
    with 1(1) [OF n] have ih: "2 ^ (bitlen (n div 2) - 1) \<le> n div 2" by simp
    from False have "0 < bitlen (n div 2)"
      by (intro bitlen_pos) simp
    then have p: "(2::nat) ^ bitlen (n div 2) = 2 * 2 ^ (bitlen (n div 2) - 1)"
      by (cases "bitlen (n div 2)") simp_all
    have s: "bitlen n - 1 = bitlen (n div 2)"
      using n by (subst bitlen.simps) simp
    have "2 * (n div 2) \<le> n" by simp
    with ih have "2 * 2 ^ (bitlen (n div 2) - 1) \<le> n" by linarith
    then show ?thesis unfolding s p .
  qed
qed

lemma rat_pow_le: "(2::nat) ^ k \<le> n \<Longrightarrow> (2::rat) ^ k \<le> of_nat n"
proof -
  assume "(2::nat) ^ k \<le> n"
  then have "(of_nat (2 ^ k) :: rat) \<le> of_nat n" by (simp only: of_nat_le_iff)
  then show ?thesis by simp
qed

lemma rat_le_pow: "n \<le> (2::nat) ^ k \<Longrightarrow> (of_nat n :: rat) \<le> 2 ^ k"
proof -
  assume "n \<le> (2::nat) ^ k"
  then have "(of_nat n :: rat) \<le> of_nat (2 ^ k)" by (simp only: of_nat_le_iff)
  then show ?thesis by simp
qed

lemma ilog2_bounds:
  assumes "0 < a"
  shows "pow2 (ilog2 a) \<le> a \<and> a < pow2 (ilog2 a + 1)"
proof (cases "1 \<le> a")
  case True
  define n where "n = nat \<lfloor>a\<rfloor>"
  have fl: "1 \<le> \<lfloor>a\<rfloor>" using True by simp
  then have n0: "0 < n" unfolding n_def by simp
  have nr: "(of_nat n :: rat) = of_int \<lfloor>a\<rfloor>"
    unfolding n_def using fl by simp
  have n: "of_nat n \<le> a" "a < of_nat n + 1"
    unfolding nr by linarith+
  have e: "ilog2 a = int (bitlen n) - 1"
    using True by (simp add: ilog2_def n_def)
  have b: "0 < bitlen n" using n0 by (rule bitlen_pos)
  then have ne: "nat (int (bitlen n) - 1) = bitlen n - 1" "0 \<le> int (bitlen n) - 1"
    by simp_all
  have "(2::rat) ^ (bitlen n - 1) \<le> of_nat n"
    using bitlen_lower [OF n0] by (rule rat_pow_le)
  with n(1) have "(2::rat) ^ (bitlen n - 1) \<le> a" by linarith
  then have lo: "pow2 (ilog2 a) \<le> a"
    unfolding e pow2_def using ne by simp
  have "n + 1 \<le> 2 ^ bitlen n"
    using bitlen_upper [of n] by simp
  then have "(of_nat (n + 1) :: rat) \<le> 2 ^ bitlen n"
    by (rule rat_le_pow)
  with n(2) have "a < 2 ^ bitlen n" by simp
  then have hi: "a < pow2 (ilog2 a + 1)"
    unfolding e pow2_def by simp
  from lo hi show ?thesis ..
next
  case False
  then have a1: "a < 1" by simp
  define m where "m = nat (\<lceil>1 / a\<rceil> - 1)"
  have inv: "1 < 1 / a" using assms a1 by simp
  then have c2: "2 \<le> \<lceil>1 / a\<rceil>" by linarith
  then have m0: "0 < m" unfolding m_def by simp
  have "0 \<le> \<lceil>1 / a\<rceil> - 1" using c2 by linarith
  then have "int m = \<lceil>1 / a\<rceil> - 1"
    unfolding m_def by (rule nat_0_le)
  then have "(of_int (int m) :: rat) = of_int (\<lceil>1 / a\<rceil> - 1)"
    by (simp only:)
  then have mr: "(of_nat m :: rat) = of_int \<lceil>1 / a\<rceil> - 1"
    by simp
  have e: "ilog2 a = - int (bitlen m)"
    using False by (simp add: ilog2_def m_def)
  have b: "0 < bitlen m" using m0 by (rule bitlen_pos)
  have "m + 1 \<le> 2 ^ bitlen m"
    using bitlen_upper [of m] by simp
  then have "(of_nat (m + 1) :: rat) \<le> 2 ^ bitlen m"
    by (rule rat_le_pow)
  then have "(of_nat m :: rat) + 1 \<le> 2 ^ bitlen m"
    by simp
  then have "(of_int \<lceil>1 / a\<rceil> :: rat) \<le> 2 ^ bitlen m"
    unfolding mr by simp
  moreover have "1 / a \<le> of_int \<lceil>1 / a\<rceil>"
    by (rule le_of_int_ceiling)
  ultimately have "1 / a \<le> 2 ^ bitlen m"
    by (rule order_trans [rotated])
  then have "1 \<le> 2 ^ bitlen m * a"
    using assms by (simp add: field_simps)
  then have "1 / 2 ^ bitlen m \<le> a"
    by (simp add: field_simps)
  then have lo: "pow2 (ilog2 a) \<le> a"
    unfolding e pow2_def using b by simp
  have "(2::rat) ^ (bitlen m - 1) \<le> of_nat m"
    using bitlen_lower [OF m0] by (rule rat_pow_le)
  moreover have "of_int \<lceil>1 / a\<rceil> - 1 < 1 / a"
    by linarith
  ultimately have lt: "(2::rat) ^ (bitlen m - 1) < 1 / a"
    using mr by linarith
  then have "2 ^ (bitlen m - 1) * a < 1"
    using assms by (simp add: field_simps)
  then have alt: "a < 1 / 2 ^ (bitlen m - 1)"
    by (simp add: field_simps)
  have "pow2 (ilog2 a + 1) = 1 / 2 ^ (bitlen m - 1)"
  proof (cases "bitlen m = 1")
    case True
    then show ?thesis by (simp add: e pow2_def)
  next
    case False
    with b have "1 < bitlen m" by simp
    then have "nat (int (bitlen m) - 1) = bitlen m - 1" "\<not> 0 \<le> - int (bitlen m) + 1"
      by simp_all
    then show ?thesis by (simp add: e pow2_def)
  qed
  with alt have hi: "a < pow2 (ilog2 a + 1)" by simp
  from lo hi show ?thesis ..
qed

lemma ilog2_le: "0 < a \<Longrightarrow> a \<le> pow2 k \<Longrightarrow> ilog2 a \<le> k"
proof (rule ccontr)
  assume a: "0 < a" "a \<le> pow2 k" and "\<not> ilog2 a \<le> k"
  then have "pow2 k < pow2 (ilog2 a)" by (intro pow2_strict_mono) simp
  with ilog2_bounds [OF a(1)] a(2) show False by simp
qed

lemma ilog2_ge: "pow2 k \<le> a \<Longrightarrow> k \<le> ilog2 a"
proof (rule ccontr)
  assume a: "pow2 k \<le> a" and "\<not> k \<le> ilog2 a"
  then have "pow2 (ilog2 a + 1) \<le> pow2 k" by (intro pow2_mono) simp
  moreover have "0 < a" using a pow2_pos [of k] by simp
  ultimately show False using ilog2_bounds [of a] a by simp
qed

lemma rhe_le: "x \<le> of_int n \<Longrightarrow> rhe x \<le> n"
proof -
  assume x: "x \<le> of_int n"
  then have f: "\<lfloor>x\<rfloor> \<le> n" by linarith
  show ?thesis
  proof (cases "\<lfloor>x\<rfloor> = n")
    case True
    have "of_int \<lfloor>x\<rfloor> \<le> x" by simp
    with x True have "x - of_int \<lfloor>x\<rfloor> = 0" by simp
    then show ?thesis by (simp add: rhe_def Let_def True)
  next
    case False
    with f have "\<lfloor>x\<rfloor> + 1 \<le> n" by simp
    then show ?thesis by (auto simp: rhe_def Let_def)
  qed
qed

lemma rhe_ge: "of_int n \<le> x \<Longrightarrow> n \<le> rhe x"
proof -
  assume "of_int n \<le> x"
  then have "n \<le> \<lfloor>x\<rfloor>" by (simp add: le_floor_iff)
  then show ?thesis by (auto simp: rhe_def Let_def)
qed


lemma rnd_upper:
  assumes q: "0 < q" "q \<le> of_int N * pow2 i" and B: "of_int N * pow2 i \<le> pow2 k"
    and k: "k - int (prec fm) + 1 \<le> i" and em: "emin fm - int (prec fm) + 1 \<le> i"
    and ex: "k \<le> emax fm"
  shows "\<exists>p. rnd fm q = Fin p \<and> 0 \<le> p \<and> p \<le> of_int N * pow2 i"
proof -
  define e where "e = max (ilog2 q) (emin fm)"
  define j where "j = e - int (prec fm) + 1"
  define n where "n = rhe (q / pow2 j)"
  define m :: rat where "m = of_int n * pow2 j"
  have "q \<le> pow2 k" using q(2) B by simp
  then have "ilog2 q \<le> k" by (rule ilog2_le [OF q(1)])
  then have ji: "j \<le> i" unfolding j_def e_def using k em by simp
  have pj: "0 < pow2 j" by (rule pow2_pos)
  have "pow2 i = pow2 ((i - j) + j)" by simp
  also have "\<dots> = pow2 (i - j) * pow2 j" by (rule pow2_add)
  also have "pow2 (i - j) = of_int (2 ^ nat (i - j))"
    using ji by (intro pow2_of_int) simp
  finally have pi: "pow2 i = of_int (2 ^ nat (i - j)) * pow2 j" .
  have "q / pow2 j \<le> of_int N * pow2 i / pow2 j"
    using q(2) pj by (simp add: divide_right_mono)
  also have "\<dots> = of_int (N * 2 ^ nat (i - j))"
    using pj by (simp add: pi)
  finally have "n \<le> N * 2 ^ nat (i - j)"
    unfolding n_def by (rule rhe_le)
  then have "(of_int n :: rat) \<le> of_int (N * 2 ^ nat (i - j))"
    by (simp only: of_int_le_iff)
  then have "m \<le> of_int (N * 2 ^ nat (i - j)) * pow2 j"
    unfolding m_def using pj by (simp only: mult_right_mono less_imp_le)
  also have "\<dots> = of_int N * pow2 i"
    by (simp add: pi)
  finally have up: "m \<le> of_int N * pow2 i" .
  have "of_int 0 \<le> q / pow2 j" using q(1) pj by simp
  then have "0 \<le> n" unfolding n_def by (rule rhe_ge)
  then have lo: "0 \<le> m" unfolding m_def using pj by simp
  have no: "\<not> (0 < m \<and> emax fm < ilog2 m)"
  proof
    assume a: "0 < m \<and> emax fm < ilog2 m"
    then have "ilog2 m \<le> k" using up B by (intro ilog2_le) simp_all
    with a ex show False by simp
  qed
  have "rnd fm q = Fin m"
    using q(1) no
    by (simp add: rnd_def Let_def m_def n_def j_def e_def)
  with lo up show ?thesis by blast
qed

lemma rnd_lower:
  assumes q: "pow2 k \<le> q" and em: "emin fm \<le> k" and pr: "0 < prec fm"
  shows "rnd fm q = PInf \<or> (\<exists>p. rnd fm q = Fin p \<and> pow2 k \<le> p)"
proof -
  have q0: "0 < q" using q pow2_pos [of k] by simp
  define j where "j = ilog2 q - int (prec fm) + 1"
  define n where "n = rhe (q / pow2 j)"
  define m :: rat where "m = of_int n * pow2 j"
  have ke: "k \<le> ilog2 q" using q by (rule ilog2_ge)
  then have e: "max (ilog2 q) (emin fm) = ilog2 q" using em by simp
  have pj: "0 < pow2 j" by (rule pow2_pos)
  have "pow2 (ilog2 q) = pow2 ((int (prec fm) - 1) + j)" by (simp add: j_def)
  also have "\<dots> = pow2 (int (prec fm) - 1) * pow2 j" by (rule pow2_add)
  also have "pow2 (int (prec fm) - 1) = of_int (2 ^ nat (int (prec fm) - 1))"
    using pr by (intro pow2_of_int) simp
  finally have pe: "pow2 (ilog2 q) = of_int (2 ^ nat (int (prec fm) - 1)) * pow2 j" .
  have "pow2 (ilog2 q) \<le> q" using ilog2_bounds [OF q0] by simp
  then have "pow2 (ilog2 q) / pow2 j \<le> q / pow2 j"
    using pj by (simp add: divide_right_mono)
  then have "of_int (2 ^ nat (int (prec fm) - 1)) \<le> q / pow2 j"
    using pj by (simp add: pe)
  then have "2 ^ nat (int (prec fm) - 1) \<le> n"
    unfolding n_def by (rule rhe_ge)
  then have "(of_int (2 ^ nat (int (prec fm) - 1)) :: rat) \<le> of_int n"
    by (simp only: of_int_le_iff)
  then have "of_int (2 ^ nat (int (prec fm) - 1)) * pow2 j \<le> m"
    unfolding m_def using pj by (simp only: mult_right_mono less_imp_le)
  then have "pow2 (ilog2 q) \<le> m" by (simp only: pe)
  moreover have "pow2 k \<le> pow2 (ilog2 q)" using ke by (rule pow2_mono)
  ultimately have lo: "pow2 k \<le> m" by simp
  have "rnd fm q = (if 0 < m \<and> emax fm < ilog2 m then PInf else Fin m)"
    using q0 by (simp add: rnd_def Let_def m_def n_def j_def e)
  with lo show ?thesis by auto
qed

lemma pow2_le_one: "pow2 k \<le> 1 \<Longrightarrow> k \<le> 0"
proof (rule ccontr)
  assume "pow2 k \<le> 1" and "\<not> k \<le> 0"
  then have "pow2 0 < pow2 k" by (intro pow2_strict_mono) simp
  with \<open>pow2 k \<le> 1\<close> show False by (simp add: pow2_def)
qed

lemma rnd_unit:
  assumes "pow2 k \<le> q" and "q \<le> 1" and "emin fm \<le> k" and "0 < prec fm" and "0 \<le> emax fm"
  shows "\<exists>p. rnd fm q = Fin p \<and> pow2 k \<le> p \<and> p \<le> 1"
proof -
  have q0: "0 < q" using assms(1) pow2_pos [of k] by simp
  have k0: "k \<le> 0" using assms(1,2) by (intro pow2_le_one) simp
  have one: "of_int 1 * pow2 0 = (1::rat)" by (simp add: pow2_def)
  have "\<exists>p. rnd fm q = Fin p \<and> 0 \<le> p \<and> p \<le> of_int 1 * pow2 0"
  proof (rule rnd_upper [OF q0])
    show "q \<le> of_int 1 * pow2 0" "of_int 1 * pow2 0 \<le> pow2 0"
      using assms(2) by (simp_all add: one) (simp add: pow2_def)
    show "0 - int (prec fm) + 1 \<le> 0" "emin fm - int (prec fm) + 1 \<le> 0" "0 \<le> emax fm"
      using assms k0 by simp_all
  qed
  then obtain p where p: "rnd fm q = Fin p" "p \<le> 1"
    unfolding one by blast
  from rnd_lower [OF assms(1,3,4)] p show ?thesis by auto
qed

section \<open>An empty list of coverages\<close>

text \<open>
  C10. When no coverage was opened, \<open>createImage\<close> returns the null pointer for every key:
  no image is allocated.
\<close>

theorem createImage_no_coverages:
  "coverages ts = [] \<Longrightarrow> createImage key_extent no_data ts key = Some (Inr None)"
  by (simp add: createImage_def)

theorem createImage_no_coverages_witness:
  "coverages (initialize [(uniform_coverage (Fin 1) [], False)] None 256) = []
   \<and> createImage grid_extent example_no_data
        (initialize [(uniform_coverage (Fin 1) [], False)] None 256) (TileKey 3 1 2)
      = Some (Inr None)"
proof -
  have h: "coverages (initialize [(uniform_coverage (Fin 1) [], False)] None 256) = []"
    by (simp add: initialize_def uniform_coverage_def)
  from createImage_no_coverages [OF h] h show ?thesis by simp
qed

section \<open>The code map\<close>

text \<open>
  C6. With a dictionary, and raw values that are not negative (and below the largest
  \<open>int\<close>), \<open>buildCodeMap\<close> gives a table of length \<open>maxRaw + 1\<close>, where \<open>maxRaw\<close> is the
  highest raw value of the mappings (0 when there is no mapping); its entry at a raw value
  is the class value of the mapping with that raw value whose class name the dictionary
  resolves (the last one, if several), and every other entry is the sentinel \<open>-1\<close>:
  mappings with an unresolved name are skipped. Without a dictionary the code map is left as
  it is, so the empty code map made by \<open>initialize\<close> stays empty, and a lookup in it
  finds nothing.
\<close>

theorem buildCodeMap_table:
  "(getDictionary cov = None \<longrightarrow>
      buildCodeMap (Some cov) codemap = Inr codemap \<and> buildCodeMap (Some cov) [] = Inr []
      \<and> translate [] code = Inr None)
   \<and> (getDictionary cov = Some dict
        \<and> (\<forall>m \<in> set (getMappings cov). 0 \<le> fst m \<and> fst m < INT_MAX) \<longrightarrow>
      (\<exists>table. buildCodeMap (Some cov) codemap = Inr table
         \<and> length table = nat (Max (set (0 # map fst (getMappings cov)))) + 1
         \<and> (getMappings cov \<noteq> [] \<longrightarrow>
               length table = nat (Max (fst ` set (getMappings cov))) + 1)
         \<and> (\<forall>i < length table. table ! i = table_entry dict (getMappings cov) i)
         \<and> (distinct (map fst (getMappings cov)) \<longrightarrow>
               (\<forall>m \<in> set (getMappings cov).
                  table ! nat (fst m) = (case dict (snd m) of None \<Rightarrow> - 1 | Some c \<Rightarrow> c)))))"
proof (intro conjI impI)
  assume "getDictionary cov = None"
  then show "buildCodeMap (Some cov) codemap = Inr codemap" "buildCodeMap (Some cov) [] = Inr []"
    by (simp_all add: buildCodeMap_def)
  show "translate [] code = Inr None"
    by (simp add: translate_def)
next
  let ?ms = "getMappings cov"
  let ?hv = "highest_value ?ms"
  let ?t0 = "replicate (nat (?hv + 1)) (- 1 :: int)"
  assume a: "getDictionary cov = Some dict \<and> (\<forall>m \<in> set ?ms. 0 \<le> fst m \<and> fst m < INT_MAX)"
  then have dict: "getDictionary cov = Some dict"
    and nonneg: "\<forall>m \<in> set ?ms. 0 \<le> fst m" and small: "\<forall>m \<in> set ?ms. fst m < INT_MAX"
    by auto
  have hv: "?hv < INT_MAX"
    by (rule highest_value_less [OF small]) (simp add: INT_MAX_def)
  have inside: "\<forall>m \<in> set ?ms. 0 \<le> fst m \<and> nat (fst m) < length ?t0"
    using nonneg highest_value_bounds(2) [of _ ?ms] by fastforce
  from fold_store_mapping [OF inside, of dict] obtain t' where t':
    "fold (store_mapping dict) ?ms (Inr ?t0) = Inr t'" "length t' = length ?t0"
    "\<forall>i < length ?t0. t' ! i =
       (case map_of (rev (resolved dict ?ms)) (int i) of None \<Rightarrow> ?t0 ! i | Some c \<Rightarrow> c)"
    by blast
  have build: "buildCodeMap (Some cov) codemap = Inr t'"
    using hv t'(1) by (simp add: buildCodeMap_def dict Let_def)
  have len: "length t' = nat (Max (set (0 # map fst ?ms))) + 1"
    using t'(2) highest_value_bounds(1) [of ?ms] by (simp add: highest_value_Max nat_add_distrib)
  have len': "?ms \<noteq> [] \<longrightarrow> length t' = nat (Max (fst ` set ?ms)) + 1"
    using t'(2) highest_value_bounds(1) [of ?ms] highest_value_nonempty [OF _ nonneg]
    by (auto simp: nat_add_distrib)
  have entries: "\<forall>i < length t'. t' ! i = table_entry dict ?ms i"
    using t'(2,3) by (auto simp: table_entry_def split: option.splits)
  have single: "distinct (map fst ?ms) \<longrightarrow>
      (\<forall>m \<in> set ?ms. t' ! nat (fst m) = (case dict (snd m) of None \<Rightarrow> - 1 | Some c \<Rightarrow> c))"
  proof (intro impI ballI)
    fix m assume d: "distinct (map fst ?ms)" and m: "m \<in> set ?ms"
    from m inside have "0 \<le> fst m" "nat (fst m) < length t'"
      by (simp_all add: t'(2))
    moreover have "(fst m, snd m) \<in> set ?ms"
      using m by simp
    ultimately show "t' ! nat (fst m) = (case dict (snd m) of None \<Rightarrow> - 1 | Some c \<Rightarrow> c)"
      using entries table_entry_distinct [OF d, of "fst m" "snd m" dict] by simp
  qed
  show "\<exists>table. buildCodeMap (Some cov) codemap = Inr table
         \<and> length table = nat (Max (set (0 # map fst ?ms))) + 1
         \<and> (?ms \<noteq> [] \<longrightarrow> length table = nat (Max (fst ` set ?ms)) + 1)
         \<and> (\<forall>i < length table. table ! i = table_entry dict ?ms i)
         \<and> (distinct (map fst ?ms) \<longrightarrow>
               (\<forall>m \<in> set ?ms.
                  table ! nat (fst m) = (case dict (snd m) of None \<Rightarrow> - 1 | Some c \<Rightarrow> c)))"
    using build len len' entries single by blast
qed

theorem buildCodeMap_table_witness:
  "getDictionary ((uniform_coverage (Fin 1) example_mappings)\<lparr>getDictionary := Some example_dictionary\<rparr>)
     = Some example_dictionary
   \<and> list_all (\<lambda>m. 0 \<le> fst m \<and> fst m < INT_MAX) example_mappings
   \<and> buildCodeMap
        (Some ((uniform_coverage (Fin 1) example_mappings)\<lparr>getDictionary := Some example_dictionary\<rparr>)) []
      = Inr [- 1, 7, - 1, 9]
   \<and> buildCodeMap (Some (uniform_coverage (Fin 1) example_mappings)) [] = Inr []"
proof -
  let ?cov = "(uniform_coverage (Fin 1) example_mappings)\<lparr>getDictionary := Some example_dictionary\<rparr>"
  have d: "getDictionary ?cov = Some example_dictionary"
    by simp
  have ms: "getMappings ?cov = example_mappings"
    by (simp add: uniform_coverage_def)
  have r: "\<forall>m \<in> set example_mappings. 0 \<le> fst m \<and> fst m < INT_MAX"
    by (simp add: example_mappings_def INT_MAX_def)
  have n: "getDictionary (uniform_coverage (Fin 1) example_mappings) = None"
    by (simp add: uniform_coverage_def)
  from buildCodeMap_table [of ?cov "[]" 0 example_dictionary] d r
  obtain table where t: "buildCodeMap (Some ?cov) [] = Inr table"
    and len: "length table = nat (Max (set (0 # map fst example_mappings))) + 1"
    and ent: "\<forall>i < length table. table ! i = table_entry example_dictionary example_mappings i"
    unfolding ms by blast
  have len4: "length table = 4"
    using len by (simp add: example_mappings_def)
  have "table ! 0 = - 1" "table ! 1 = 7" "table ! 2 = - 1" "table ! 3 = 9"
    using ent len4
    by (simp_all add: table_entry_def example_mappings_def example_dictionary_def)
  with len4 have "table = [- 1, 7, - 1, 9]"
    by (intro nth_equalityI) (auto simp: less_Suc_eq numeral_eq_Suc)
  moreover from buildCodeMap_table [of "uniform_coverage (Fin 1) example_mappings" "[]" 0] n
  have "buildCodeMap (Some (uniform_coverage (Fin 1) example_mappings)) [] = Inr []"
    by blast
  ultimately show ?thesis
    using d r t by (simp add: list_all_iff)
qed

section \<open>The binding of a coverage\<close>

text \<open>
  C4, as the source has it. \<open>load\<close> asks the layer for \<open>getEnabled\<close>, \<open>getVisible\<close> and
  \<open>isKeyInLegalRange\<close> before the first call of the provider. When one of the three fails,
  the binding is absent whatever the provider would answer; when the three hold, there is
  a binding exactly when the provider has an image for the key or for one of its
  ancestors.
\<close>

theorem binding_gate:
  "(\<not> (getEnabled c \<and> getVisible c \<and> isKeyInLegalRange c key) \<longrightarrow>
      (\<forall>prov. binding key_extent key (c\<lparr>createImageOf := prov\<rparr>) = ILayer_new\<lparr>valid := False\<rparr>))
   \<and> (getEnabled c \<and> getVisible c \<and> isKeyInLegalRange c key \<longrightarrow>
        valid (binding key_extent key c) = (\<exists>A \<in> set (ancestors key). createImageOf c A \<noteq> None))"
proof (intro conjI impI allI)
  fix prov
  assume "\<not> (getEnabled c \<and> getVisible c \<and> isKeyInLegalRange c key)"
  then show "binding key_extent key (c\<lparr>createImageOf := prov\<rparr>) = ILayer_new\<lparr>valid := False\<rparr>"
    by (intro binding_closed) simp
next
  assume g: "getEnabled c \<and> getVisible c \<and> isKeyInLegalRange c key"
  show "valid (binding key_extent key c) = (\<exists>A \<in> set (ancestors key). createImageOf c A \<noteq> None)"
  proof (cases "first_image (createImageOf c) (ancestors key)")
    case None
    then show ?thesis
      using first_image_None [of "createImageOf c" "ancestors key"]
      by (simp add: binding_open [OF g] ILayer_new_def)
  next
    case (Some p)
    obtain A im where p: "p = (A, im)" by (cases p)
    from first_image_Some [OF Some [unfolded p]] show ?thesis
      by (auto simp: binding_open [OF g] Some p)
  qed
qed

text \<open>
  With the visible flag taken as irrelevant, the property fails on a coverage that is
  enabled and not visible: the key is in its legal range and the provider has an image
  for it, and there is no binding.
\<close>

theorem hidden_coverage_not_bound:
  "getEnabled ((uniform_coverage (Fin 1) [])\<lparr>getVisible := False\<rparr>)
   \<and> isKeyInLegalRange ((uniform_coverage (Fin 1) [])\<lparr>getVisible := False\<rparr>) (TileKey 0 0 0)
   \<and> createImageOf ((uniform_coverage (Fin 1) [])\<lparr>getVisible := False\<rparr>) (TileKey 0 0 0)
       = Some (uniform_image (Fin 1))
   \<and> \<not> valid (binding grid_extent (TileKey 0 0 0)
                ((uniform_coverage (Fin 1) [])\<lparr>getVisible := False\<rparr>))"
  by (simp add: uniform_coverage_def binding_def load_def ILayer_new_def)

theorem binding_gate_witness:
  "\<not> (getEnabled ((uniform_coverage (Fin 1) [])\<lparr>getEnabled := False\<rparr>)
        \<and> getVisible ((uniform_coverage (Fin 1) [])\<lparr>getEnabled := False\<rparr>)
        \<and> isKeyInLegalRange ((uniform_coverage (Fin 1) [])\<lparr>getEnabled := False\<rparr>) (TileKey (Suc 0) 1 0))
   \<and> binding grid_extent (TileKey (Suc 0) 1 0)
         ((uniform_coverage (Fin 1) [])\<lparr>getEnabled := False,
             createImageOf := (\<lambda>k. Some (uniform_image (Fin 1)))\<rparr>)
       = ILayer_new\<lparr>valid := False\<rparr>
   \<and> getEnabled (uniform_coverage (Fin 1) []) \<and> getVisible (uniform_coverage (Fin 1) [])
   \<and> isKeyInLegalRange (uniform_coverage (Fin 1) []) (TileKey (Suc 0) 1 0)
   \<and> TileKey 0 0 0 \<in> set (ancestors (TileKey (Suc 0) 1 0))
   \<and> createImageOf (uniform_coverage (Fin 1) []) (TileKey 0 0 0) = Some (uniform_image (Fin 1))
   \<and> valid (binding grid_extent (TileKey (Suc 0) 1 0) (uniform_coverage (Fin 1) []))"
proof -
  let ?off = "(uniform_coverage (Fin 1) [])\<lparr>getEnabled := False\<rparr>"
  let ?on = "uniform_coverage (Fin 1) []"
  let ?k = "TileKey (Suc 0) 1 0"
  have closed: "\<not> (getEnabled ?off \<and> getVisible ?off \<and> isKeyInLegalRange ?off ?k)"
    by simp
  have opened: "getEnabled ?on \<and> getVisible ?on \<and> isKeyInLegalRange ?on ?k"
    by (simp add: uniform_coverage_def)
  have anc: "TileKey 0 0 0 \<in> set (ancestors ?k)"
    by simp
  have img: "createImageOf ?on (TileKey 0 0 0) = Some (uniform_image (Fin 1))"
    by (simp add: uniform_coverage_def)
  from binding_gate [of ?off ?k grid_extent] closed
  have "binding grid_extent ?k (?off\<lparr>createImageOf := (\<lambda>k. Some (uniform_image (Fin 1)))\<rparr>)
          = ILayer_new\<lparr>valid := False\<rparr>"
    by blast
  moreover from binding_gate [of ?on ?k grid_extent] opened anc img
  have "valid (binding grid_extent ?k ?on)"
    by auto
  ultimately show ?thesis
    using closed opened anc img by simp
qed

lemma finite_extent_fields:
  assumes "finite_extent e = Some (x, y, w, h)"
  shows "xMin e = Fin x \<and> yMin e = Fin y \<and> width e = Fin w \<and> height e = Fin h"
proof -
  have f: "fin_of z = Some r \<Longrightarrow> z = Fin r" for z r
    by (cases z) simp_all
  from assms show ?thesis
    by (auto simp: finite_extent_def split: option.splits dest: f)
qed

lemma stored_quotient_unit:
  assumes "0 < w" and "w \<le> W" and "pow2 (- 126) \<le> w / W"
  shows "\<exists>s. narrow (fdiv binary64 (Fin w) (Fin W)) = Fin s \<and> 0 < s \<and> s \<le> 1"
proof -
  have W: "0 < W" using assms(1,2) by simp
  then have le: "w / W \<le> 1" using assms(2) by simp
  have "\<exists>p. rnd binary64 (w / W) = Fin p \<and> pow2 (- 126) \<le> p \<and> p \<le> 1"
    using assms(3) le by (rule rnd_unit) (simp_all add: binary64_def)
  then obtain p where p: "rnd binary64 (w / W) = Fin p" "pow2 (- 126) \<le> p" "p \<le> 1"
    by blast
  have "\<exists>s. rnd binary32 p = Fin s \<and> pow2 (- 126) \<le> s \<and> s \<le> 1"
    using p(2,3) by (rule rnd_unit) (simp_all add: binary32_def)
  then obtain s where s: "rnd binary32 p = Fin s" "pow2 (- 126) \<le> s" "s \<le> 1"
    by blast
  have "0 < s" using s(2) pow2_pos [of "- 126"] by simp
  moreover have "narrow (fdiv binary64 (Fin w) (Fin W)) = Fin s"
    using W p(1) s(1) by simp
  ultimately show ?thesis using s(3) by blast
qed

text \<open>
  C5. When the three conditions of \<open>load\<close> hold, the image of the binding is the image
  the provider has for the first key, from the requested key upward through its parents,
  for which it has one, and the binding is absent when it has none for any of them. When
  the image found at the key \<open>A\<close> has the extent of \<open>A\<close>, the scale is the quotient of the
  widths of the tile and of \<open>A\<close>, and the bias the offset of the tile in \<open>A\<close> divided by the
  width, respectively the height, of \<open>A\<close>, each computed in \<open>double\<close> and stored in a
  \<open>float\<close>. In a grid where every tile is a quarter of its parent, the quotient of the
  widths is in \<open>(0, 1]\<close> and the affine map with these quotients sends the unit square of
  the tile into the unit square of \<open>A\<close>.
\<close>

theorem binding_transform:
  assumes g: "getEnabled c \<and> getVisible c \<and> isKeyInLegalRange c key"
  shows "image_of (binding key_extent key c)
           = map_option snd (first_image (createImageOf c) (ancestors key))
    \<and> (first_image (createImageOf c) (ancestors key) = Some (A, im)
         \<and> getExtent im = key_extent A \<longrightarrow>
       A \<in> set (ancestors key) \<and> createImageOf c A = Some im
       \<and> scale (binding key_extent key c)
           = narrow (fdiv binary64 (width (key_extent key)) (width (key_extent A)))
       \<and> bias_x (binding key_extent key c)
           = narrow (fdiv binary64 (fsub binary64 (xMin (key_extent key)) (xMin (key_extent A)))
                       (width (key_extent A)))
       \<and> bias_y (binding key_extent key c)
           = narrow (fdiv binary64 (fsub binary64 (yMin (key_extent key)) (yMin (key_extent A)))
                       (height (key_extent A)))
       \<and> (finite_extent (key_extent key) = Some (x, y, w, h) \<and> 0 < w \<and> 0 < h
            \<and> finite_extent (key_extent A) = Some (X, Y, W, H)
            \<and> (\<forall>k \<in> set (ancestors key). key_valid (createParentKey k) \<longrightarrow>
                   quadrant_of (key_extent k) (key_extent (createParentKey k)))
            \<and> 0 \<le> u \<and> u \<le> 1 \<and> 0 \<le> v \<and> v \<le> 1 \<longrightarrow>
          0 < w / W \<and> w / W \<le> 1
          \<and> 0 \<le> w / W * u + (x - X) / W \<and> w / W * u + (x - X) / W \<le> 1
          \<and> 0 \<le> w / W * v + (y - Y) / H \<and> w / W * v + (y - Y) / H \<le> 1
          \<and> (pow2 (- 126) \<le> w / W \<longrightarrow>
               (\<exists>s. scale (binding key_extent key c) = Fin s \<and> 0 < s \<and> s \<le> 1))))"
proof (intro conjI impI)
  show "image_of (binding key_extent key c)
           = map_option snd (first_image (createImageOf c) (ancestors key))"
    by (simp add: binding_open [OF g] ILayer_new_def split: option.splits)
next
  assume a: "first_image (createImageOf c) (ancestors key) = Some (A, im) \<and> getExtent im = key_extent A"
  then have f: "first_image (createImageOf c) (ancestors key) = Some (A, im)"
    and e: "getExtent im = key_extent A" by simp_all
  from first_image_Some [OF f] show "A \<in> set (ancestors key)" "createImageOf c A = Some im"
    by simp_all
  show "scale (binding key_extent key c)
           = narrow (fdiv binary64 (width (key_extent key)) (width (key_extent A)))"
    by (simp add: binding_open [OF g] f e)
  show "bias_x (binding key_extent key c)
           = narrow (fdiv binary64 (fsub binary64 (xMin (key_extent key)) (xMin (key_extent A)))
                       (width (key_extent A)))"
    by (simp add: binding_open [OF g] f e)
  show "bias_y (binding key_extent key c)
           = narrow (fdiv binary64 (fsub binary64 (yMin (key_extent key)) (yMin (key_extent A)))
                       (height (key_extent A)))"
    by (simp add: binding_open [OF g] f e)
  assume n: "finite_extent (key_extent key) = Some (x, y, w, h) \<and> 0 < w \<and> 0 < h
            \<and> finite_extent (key_extent A) = Some (X, Y, W, H)
            \<and> (\<forall>k \<in> set (ancestors key). key_valid (createParentKey k) \<longrightarrow>
                   quadrant_of (key_extent k) (key_extent (createParentKey k)))
            \<and> 0 \<le> u \<and> u \<le> 1 \<and> 0 \<le> v \<and> v \<le> 1"
  have "nested_in (key_extent key) (key_extent key)"
    using n by (intro nested_in_self [of _ x y w h]) simp_all
  then have "nested_in (key_extent key) (key_extent A)"
    using n first_image_Some [OF f] by (intro nested_in_ancestors [of _ key_extent key A]) simp_all
  then have ne: "0 < w \<and> 0 < h \<and> X \<le> x \<and> x + w \<le> X + W \<and> Y \<le> y \<and> y + h \<le> Y + H \<and> w * H = h * W"
    using n by (simp add: nested_in_def)
  then have sq: "0 < w / W \<and> w / W \<le> 1
       \<and> 0 \<le> w / W * u + (x - X) / W \<and> w / W * u + (x - X) / W \<le> 1
       \<and> 0 \<le> w / W * v + (y - Y) / H \<and> w / W * v + (y - Y) / H \<le> 1"
    using n by (intro unit_square) simp_all
  from sq show "0 < w / W" "w / W \<le> 1" "0 \<le> w / W * u + (x - X) / W"
    "w / W * u + (x - X) / W \<le> 1" "0 \<le> w / W * v + (y - Y) / H" "w / W * v + (y - Y) / H \<le> 1"
    by simp_all
  assume "pow2 (- 126) \<le> w / W"
  with ne have "\<exists>s. narrow (fdiv binary64 (Fin w) (Fin W)) = Fin s \<and> 0 < s \<and> s \<le> 1"
    by (intro stored_quotient_unit) simp_all
  moreover have "width (key_extent key) = Fin w" "width (key_extent A) = Fin W"
    using n finite_extent_fields [of "key_extent key" x y w h]
      finite_extent_fields [of "key_extent A" X Y W H] by simp_all
  ultimately show "\<exists>s. scale (binding key_extent key c) = Fin s \<and> 0 < s \<and> s \<le> 1"
    by (simp add: binding_open [OF g] f e)
qed

theorem binding_transform_witness:
  "getEnabled (uniform_coverage (Fin 1) []) \<and> getVisible (uniform_coverage (Fin 1) [])
   \<and> isKeyInLegalRange (uniform_coverage (Fin 1) []) (TileKey (Suc 0) 1 0)
   \<and> first_image (createImageOf (uniform_coverage (Fin 1) [])) (ancestors (TileKey (Suc 0) 1 0))
       = Some (TileKey 0 0 0, uniform_image (Fin 1))
   \<and> getExtent (uniform_image (Fin 1)) = grid_extent (TileKey 0 0 0)
   \<and> finite_extent (grid_extent (TileKey (Suc 0) 1 0)) = Some (1 / 2, 0, 1 / 2, 1 / 2)
   \<and> finite_extent (grid_extent (TileKey 0 0 0)) = Some (0, 0, 1, 1)
   \<and> list_all (\<lambda>k. key_valid (createParentKey k) \<longrightarrow>
                  quadrant_of (grid_extent k) (grid_extent (createParentKey k)))
        (ancestors (TileKey (Suc 0) 1 0))
   \<and> image_of (binding grid_extent (TileKey (Suc 0) 1 0) (uniform_coverage (Fin 1) []))
       = Some (uniform_image (Fin 1))
   \<and> scale (binding grid_extent (TileKey (Suc 0) 1 0) (uniform_coverage (Fin 1) [])) = Fin (1 / 2)
   \<and> bias_x (binding grid_extent (TileKey (Suc 0) 1 0) (uniform_coverage (Fin 1) [])) = Fin (1 / 2)
   \<and> bias_y (binding grid_extent (TileKey (Suc 0) 1 0) (uniform_coverage (Fin 1) [])) = Fin 0
   \<and> (1 / 2 :: rat) / 1 * 1 + (1 / 2 - 0) / 1 \<le> 1
   \<and> (1 / 2 :: rat) / 1 * 1 + (0 - 0) / 1 \<le> 1
   \<and> pow2 (- 126) \<le> (1 / 2) / 1"
proof -
  let ?c = "uniform_coverage (Fin 1) []"
  let ?k = "TileKey (Suc 0) 1 0"
  let ?A = "TileKey 0 0 0"
  let ?im = "uniform_image (Fin 1)"
  have g: "getEnabled ?c \<and> getVisible ?c \<and> isKeyInLegalRange ?c ?k"
    by (simp add: uniform_coverage_def)
  have f: "first_image (createImageOf ?c) (ancestors ?k) = Some (?A, ?im)"
    by (simp add: uniform_coverage_def)
  have e: "getExtent ?im = grid_extent ?A"
    by (simp add: uniform_image_def)
  have fk: "finite_extent (grid_extent ?k) = Some (1 / 2, 0, 1 / 2, 1 / 2)"
    by (simp add: finite_extent_def grid_extent_def)
  have fA: "finite_extent (grid_extent ?A) = Some (0, 0, 1, 1)"
    by (simp add: finite_extent_def grid_extent_def)
  have q: "\<forall>k \<in> set (ancestors ?k). key_valid (createParentKey k) \<longrightarrow>
             quadrant_of (grid_extent k) (grid_extent (createParentKey k))"
    by (simp add: quadrant_of_def finite_extent_def grid_extent_def)
  have s: "narrow (fdiv binary64 (width (grid_extent ?k)) (width (grid_extent ?A))) = Fin (1 / 2)"
    by code_simp
  have bx: "narrow (fdiv binary64 (fsub binary64 (xMin (grid_extent ?k)) (xMin (grid_extent ?A)))
              (width (grid_extent ?A))) = Fin (1 / 2)"
    by code_simp
  have by': "narrow (fdiv binary64 (fsub binary64 (yMin (grid_extent ?k)) (yMin (grid_extent ?A)))
              (height (grid_extent ?A))) = Fin 0"
    by code_simp
  note t = binding_transform [OF g, of grid_extent ?A ?im "1 / 2" 0 "1 / 2" "1 / 2" 0 0 1 1 1 1]
  from t f have "image_of (binding grid_extent ?k ?c) = Some ?im"
    by simp
  moreover from t f e s bx by'
  have "scale (binding grid_extent ?k ?c) = Fin (1 / 2)"
    "bias_x (binding grid_extent ?k ?c) = Fin (1 / 2)"
    "bias_y (binding grid_extent ?k ?c) = Fin 0"
    by simp_all
  moreover from t f e fk fA q
  have "(1 / 2 :: rat) / 1 * 1 + (1 / 2 - 0) / 1 \<le> 1" "(1 / 2 :: rat) / 1 * 1 + (0 - 0) / 1 \<le> 1"
    by simp_all
  moreover have "pow2 (- 126) \<le> (1 / 2) / 1"
    by code_simp
  ultimately show ?thesis
    using g f e fk fA q by (simp add: list_all_iff)
qed

section \<open>The composite\<close>

lemma first_offer_none: "(\<forall>L < n. f L = None) \<Longrightarrow> first_offer f n = None"
  by (induction n) simp_all

lemma first_offer_highest:
  "L < n \<Longrightarrow> f L = Some texel \<Longrightarrow> (\<forall>L'. L < L' \<and> L' < n \<longrightarrow> f L' = None)
     \<Longrightarrow> first_offer f n = Some texel"
proof (induction n)
  case 0
  then show ?case by simp
next
  case (Suc n)
  show ?case
  proof (cases "L = n")
    case True
    with Suc.prems show ?thesis by simp
  next
    case False
    with Suc.prems have "L < n" "f n = None" by simp_all
    with Suc show ?thesis by simp
  qed
qed

lemma offer_empty_table:
  "codemaps ts ! L = [] \<Longrightarrow> offer key_extent no_data ts key L u v = None"
  by (simp add: offer_def lookup_def Let_def split: option.splits sum.splits)

lemma createImage_writes:
  assumes "createImage key_extent no_data ts key = Some (Inr (Some out))"
  shows "size_s out = getPixelsPerTile ts \<and> size_t out = getPixelsPerTile ts
       \<and> internalTextureFormat out
           = (if bits ts = Some 16 then GL_LUMINANCE16F_ARB else GL_LUMINANCE32F_ARB)
       \<and> (\<forall>(texel, u, v) \<in> set (writes out).
             texel = composite_texel key_extent no_data ts key u v)"
proof -
  from assms have "coverages ts \<noteq> []"
    by (auto simp: createImage_def)
  from createImage_loops [OF assms this] show ?thesis by simp
qed

lemma createImage_faults:
  assumes "createImage key_extent no_data ts key = Some (Inl e)"
    and "length (codemaps ts) = length (coverages ts)"
  shows "e = UndefinedCast"
proof -
  from assms(1) have "coverages ts \<noteq> []"
    by (auto simp: createImage_def)
  from createImage_loops [OF assms(1) this] assms(2) show ?thesis by simp
qed

lemma visits_two:
  "t = 2 \<Longrightarrow> visits (fdiv binary32 (Fin 1) (float_of_int (t - 1))) (Fin 0) [Fin 0, Fin 1]"
  by (simp only:) code_simp

lemma two_coverages_image:
  "createImage grid_extent example_no_data two_coverages (TileKey (Suc 0) 1 0)
     = Some (Inr (Some \<lparr>size_s = 2, size_t = 2, internalTextureFormat = GL_LUMINANCE32F_ARB,
          writes = [(Vec4 (Fin 7) (Fin 0) (Fin 0) (Fin 1), Fin 0, Fin 0),
                    (Vec4 (Fin 7) (Fin 0) (Fin 0) (Fin 1), Fin 0, Fin 1),
                    (Vec4 (Fin 7) (Fin 0) (Fin 0) (Fin 1), Fin 1, Fin 0),
                    (Vec4 (Fin 7) (Fin 0) (Fin 0) (Fin 1), Fin 1, Fin 1)]\<rparr>))"
proof -
  have ne: "coverages two_coverages \<noteq> []"
    by (simp add: two_coverages_def)
  have v: "visits (fdiv binary32 (Fin 1) (float_of_int (getPixelsPerTile two_coverages - 1)))
             (Fin 0) [Fin 0, Fin 1]"
    by (rule visits_two) (simp add: two_coverages_def)
  show ?thesis
    unfolding createImage_run [OF ne v] by code_simp
qed

lemma fallback_coverages_image:
  "createImage grid_extent example_no_data fallback_coverages (TileKey 0 0 0)
     = Some (Inr (Some \<lparr>size_s = 2, size_t = 2, internalTextureFormat = GL_LUMINANCE32F_ARB,
          writes = [(Vec4 (Fin 99) (Fin 0) (Fin 0) (Fin 1), Fin 0, Fin 0),
                    (Vec4 (Fin 99) (Fin 0) (Fin 0) (Fin 1), Fin 0, Fin 1),
                    (Vec4 (Fin 99) (Fin 0) (Fin 0) (Fin 1), Fin 1, Fin 0),
                    (Vec4 (Fin 99) (Fin 0) (Fin 0) (Fin 1), Fin 1, Fin 1)]\<rparr>))"
proof -
  have ne: "coverages fallback_coverages \<noteq> []"
    by (simp add: fallback_coverages_def)
  have v: "visits (fdiv binary32 (Fin 1) (float_of_int (getPixelsPerTile fallback_coverages - 1)))
             (Fin 0) [Fin 0, Fin 1]"
    by (rule visits_two) (simp add: fallback_coverages_def)
  show ?thesis
    unfolding createImage_run [OF ne v] by code_simp
qed

lemma to_size_t_nat: "0 \<le> code \<Longrightarrow> code < 2 ^ 64 \<Longrightarrow> to_size_t code = nat code"
  by (simp add: to_size_t_def)

lemma translate_no_fault: "translate codemap code \<noteq> Inl e"
  by (simp add: translate_def vector_at_def)

lemma initialize_loop_codemaps:
  assumes "\<forall>cm \<in> set (codemaps ts). cm = []" and "length (codemaps ts) = length (coverages ts)"
  shows "(\<forall>cm \<in> set (codemaps (initialize_loop opts ts)). cm = [])
       \<and> length (codemaps (initialize_loop opts ts)) = length (coverages (initialize_loop opts ts))"
  using assms
proof (induction opts ts rule: initialize_loop.induct)
  case (1 ts)
  then show ?case by simp
next
  case (2 layer opens rest ts)
  then show ?case by simp
qed

lemma setDictionary_loop_None:
  assumes "length (codemaps ts) = length (coverages ts)"
  shows "\<exists>ts'. setDictionary_loop None i ts = Inr ts' \<and> codemaps ts' = codemaps ts
           \<and> length (coverages ts') = length (coverages ts)"
  using assms
proof (induction "length (coverages ts) - i" arbitrary: i ts)
  case 0
  then show ?case
    by (subst setDictionary_loop.simps) simp
next
  case (Suc n)
  then have i: "i < length (coverages ts)" by simp
  let ?cov = "(coverages ts ! i)\<lparr>getDictionary := None\<rparr>"
  let ?ts = "ts\<lparr>coverages := (coverages ts)[i := ?cov],
                codemaps := (codemaps ts)[i := codemaps ts ! i]\<rparr>"
  have b: "buildCodeMap (Some ?cov) (codemaps ts ! i) = Inr (codemaps ts ! i)"
    by (simp add: buildCodeMap_def)
  have at: "vector_at (codemaps ts) i = Inr (codemaps ts ! i)"
    using i Suc.prems by (simp add: vector_at_def)
  have step: "setDictionary_loop None i ts = setDictionary_loop None (Suc i) ?ts"
    using i by (subst setDictionary_loop.simps) (simp add: at b Let_def)
  have n: "n = length (coverages ?ts) - Suc i"
    using Suc.hyps(2) by simp
  have l: "length (codemaps ?ts) = length (coverages ?ts)"
    using Suc.prems by simp
  from Suc.hyps(1) [OF n l] show ?case
    unfolding step by simp
qed

text \<open>
  C1. Every texel \<open>createImage\<close> writes is the texel of the composite at its position:
  the offer of the coverage of highest index that has one, whatever the coverages of lower
  index offer, and the no-data texel when no coverage has an offer. A coverage has an offer
  when it is bound, the mapped coordinate is in the unit square, the sample is not the
  no-data value and the table of the coverage maps its code; the offer is the sample with
  the translated code.
\<close>

theorem composite_priority:
  assumes "createImage key_extent no_data ts key = Some (Inr (Some out))"
    and "(texel, u, v) \<in> set (writes out)"
  shows "texel = composite_texel key_extent no_data ts key u v
    \<and> (L < length (coverages ts) \<and> offer key_extent no_data ts key L u v = Some t
         \<and> (\<forall>L'. L < L' \<and> L' < length (coverages ts) \<longrightarrow>
                offer key_extent no_data ts key L' u v = None)
        \<longrightarrow> texel = t)
    \<and> ((\<forall>L < length (coverages ts). offer key_extent no_data ts key L u v = None)
        \<longrightarrow> texel = nodata_texel no_data (internalTextureFormat out))"
proof -
  from createImage_writes [OF assms(1)] assms(2)
  have c: "texel = composite_texel key_extent no_data ts key u v"
    and f: "internalTextureFormat out
              = (if bits ts = Some 16 then GL_LUMINANCE16F_ARB else GL_LUMINANCE32F_ARB)"
    by auto
  have "texel = t"
    if "L < length (coverages ts)" "offer key_extent no_data ts key L u v = Some t"
      "\<forall>L'. L < L' \<and> L' < length (coverages ts) \<longrightarrow> offer key_extent no_data ts key L' u v = None"
    using first_offer_highest [of L "length (coverages ts)"
        "\<lambda>L. offer key_extent no_data ts key L u v" t] that c
    by (simp add: composite_texel_def)
  moreover have "texel = nodata_texel no_data (internalTextureFormat out)"
    if "\<forall>L < length (coverages ts). offer key_extent no_data ts key L u v = None"
    using first_offer_none [of "length (coverages ts)"
        "\<lambda>L. offer key_extent no_data ts key L u v"] that c f
    by (simp add: composite_texel_def)
  ultimately show ?thesis
    using c by blast
qed

theorem composite_priority_witness:
  "createImage grid_extent example_no_data two_coverages (TileKey (Suc 0) 1 0)
     = Some (Inr (Some \<lparr>size_s = 2, size_t = 2, internalTextureFormat = GL_LUMINANCE32F_ARB,
          writes = [(Vec4 (Fin 7) (Fin 0) (Fin 0) (Fin 1), Fin 0, Fin 0),
                    (Vec4 (Fin 7) (Fin 0) (Fin 0) (Fin 1), Fin 0, Fin 1),
                    (Vec4 (Fin 7) (Fin 0) (Fin 0) (Fin 1), Fin 1, Fin 0),
                    (Vec4 (Fin 7) (Fin 0) (Fin 0) (Fin 1), Fin 1, Fin 1)]\<rparr>))
   \<and> offer grid_extent example_no_data two_coverages (TileKey (Suc 0) 1 0) 1 (Fin 1) (Fin 0)
       = Some (Vec4 (Fin 7) (Fin 0) (Fin 0) (Fin 1))
   \<and> offer grid_extent example_no_data two_coverages (TileKey (Suc 0) 1 0) 0 (Fin 1) (Fin 0)
       = Some (Vec4 (Fin 99) (Fin 0) (Fin 0) (Fin 1))
   \<and> composite_texel grid_extent example_no_data two_coverages (TileKey (Suc 0) 1 0) (Fin 1) (Fin 0)
       = Vec4 (Fin 7) (Fin 0) (Fin 0) (Fin 1)
   \<and> createImage grid_extent example_no_data fallback_coverages (TileKey 0 0 0)
     = Some (Inr (Some \<lparr>size_s = 2, size_t = 2, internalTextureFormat = GL_LUMINANCE32F_ARB,
          writes = [(Vec4 (Fin 99) (Fin 0) (Fin 0) (Fin 1), Fin 0, Fin 0),
                    (Vec4 (Fin 99) (Fin 0) (Fin 0) (Fin 1), Fin 0, Fin 1),
                    (Vec4 (Fin 99) (Fin 0) (Fin 0) (Fin 1), Fin 1, Fin 0),
                    (Vec4 (Fin 99) (Fin 0) (Fin 0) (Fin 1), Fin 1, Fin 1)]\<rparr>))
   \<and> offer grid_extent example_no_data fallback_coverages (TileKey 0 0 0) 2 (Fin 0) (Fin 1) = None
   \<and> offer grid_extent example_no_data fallback_coverages (TileKey 0 0 0) 1 (Fin 0) (Fin 1) = None
   \<and> offer grid_extent example_no_data fallback_coverages (TileKey 0 0 0) 0 (Fin 0) (Fin 1)
       = Some (Vec4 (Fin 99) (Fin 0) (Fin 0) (Fin 1))
   \<and> composite_texel grid_extent example_no_data fallback_coverages (TileKey 0 0 0) (Fin 0) (Fin 1)
       = Vec4 (Fin 99) (Fin 0) (Fin 0) (Fin 1)"
proof -
  let ?seven = "Vec4 (Fin 7) (Fin 0) (Fin 0) (Fin 1)"
  let ?ninety_nine = "Vec4 (Fin 99) (Fin 0) (Fin 0) (Fin 1)"
  have o1: "offer grid_extent example_no_data two_coverages (TileKey (Suc 0) 1 0) 1 (Fin 1) (Fin 0)
              = Some ?seven"
    by code_simp
  have o0: "offer grid_extent example_no_data two_coverages (TileKey (Suc 0) 1 0) 0 (Fin 1) (Fin 0)
              = Some ?ninety_nine"
    by code_simp
  have f2: "offer grid_extent example_no_data fallback_coverages (TileKey 0 0 0) 2 (Fin 0) (Fin 1) = None"
    by code_simp
  have f1: "offer grid_extent example_no_data fallback_coverages (TileKey 0 0 0) 1 (Fin 0) (Fin 1) = None"
    by code_simp
  have f0: "offer grid_extent example_no_data fallback_coverages (TileKey 0 0 0) 0 (Fin 0) (Fin 1)
              = Some ?ninety_nine"
    by code_simp
  have "?seven = composite_texel grid_extent example_no_data two_coverages (TileKey (Suc 0) 1 0)
                   (Fin 1) (Fin 0)"
    using composite_priority [OF two_coverages_image, of ?seven "Fin 1" "Fin 0"] by simp
  moreover
  have "?ninety_nine = composite_texel grid_extent example_no_data fallback_coverages (TileKey 0 0 0)
                   (Fin 0) (Fin 1)"
    using composite_priority [OF fallback_coverages_image, of ?ninety_nine "Fin 0" "Fin 1"] by simp
  ultimately show ?thesis
    using o1 o0 f2 f1 f0 two_coverages_image fallback_coverages_image by simp
qed

text \<open>
  C7. The lookup of a code in a code map never reads outside the code map: a code at or
  beyond its length is unmapped, like an entry with the sentinel, and \<open>createImage\<close>, whose
  code maps are as many as its coverages, never ends in an access out of range.
\<close>

theorem translate_in_bounds:
  "translate codemap code \<noteq> Inl OutOfRange
   \<and> (int (length codemap) \<le> code \<and> code < 2 ^ 64 \<longrightarrow> translate codemap code = Inr None)
   \<and> (length (codemaps ts) = length (coverages ts) \<longrightarrow>
        createImage key_extent no_data ts key \<noteq> Some (Inl OutOfRange))"
proof (intro conjI impI)
  show "translate codemap code \<noteq> Inl OutOfRange"
    by (rule translate_no_fault)
next
  assume "int (length codemap) \<le> code \<and> code < 2 ^ 64"
  then have "0 \<le> code" "code < 2 ^ 64" "length codemap \<le> nat code"
    by linarith+
  then show "translate codemap code = Inr None"
    by (simp add: translate_def to_size_t_nat)
next
  assume "length (codemaps ts) = length (coverages ts)"
  then show "createImage key_extent no_data ts key \<noteq> Some (Inl OutOfRange)"
    using createImage_faults [of key_extent no_data ts key OutOfRange] by auto
qed

theorem translate_in_bounds_witness:
  "translate [- 1, 7] 1 = Inr (Some 7)
   \<and> int (length [- 1, 7 :: int]) \<le> 2 \<and> (2 :: int) < 2 ^ 64
   \<and> translate [- 1, 7] 2 = Inr None
   \<and> length (codemaps fallback_coverages) = length (coverages fallback_coverages)
   \<and> createImage grid_extent example_no_data fallback_coverages (TileKey 0 0 0)
       \<noteq> Some (Inl OutOfRange)"
proof -
  have a: "translate [- 1, 7] 1 = Inr (Some 7)"
    by code_simp
  have b: "int (length [- 1, 7 :: int]) \<le> 2 \<and> (2 :: int) < 2 ^ 64"
    by simp
  have c: "length (codemaps fallback_coverages) = length (coverages fallback_coverages)"
    by (simp add: fallback_coverages_def)
  from translate_in_bounds [of "[- 1, 7]" 2 fallback_coverages grid_extent example_no_data
      "TileKey 0 0 0"] a b c
  show ?thesis by simp
qed

lemma sample_layer_total:
  assumes "image_of layer = Some im" and "\<forall>x y. \<exists>code. raw_code (red (read im x y)) = Inr code"
    and "L < length cms"
  shows "\<exists>r. sample_layer no_data cms L layer u v = Inr r"
proof -
  let ?x = "fadd binary32 (fmul binary32 (scale layer) u) (bias_x layer)"
  let ?y = "fadd binary32 (fmul binary32 (scale layer) v) (bias_y layer)"
  from assms(2) obtain code where c: "raw_code (red (read im ?x ?y)) = Inr code"
    by blast
  have t: "\<exists>r. translate (cms ! L) code = Inr r"
    by (simp add: translate_def vector_at_def)
  then obtain r where r: "translate (cms ! L) code = Inr r" ..
  show ?thesis
    using assms(1,3) c r
    by (auto simp: sample_layer_def Let_def vector_at_def split: option.splits)
qed

lemma scan_layers_total:
  assumes "layers_ok key_extent ts key layers" and "n \<le> length layers"
    and "length (codemaps ts) = length (coverages ts)"
    and "castable key_extent ts key"
  shows "\<exists>layers' w. scan_layers key_extent no_data ts key u v n layers = Inr (layers', w)"
  using assms(1,2)
proof (induction n arbitrary: layers)
  case 0
  then show ?case by simp
next
  case (Suc L)
  then have L: "L < length layers" and ok: "layers_ok key_extent ts key layers" by simp_all
  let ?b = "binding key_extent key (coverages ts ! L)"
  have Lv: "L < length (coverages ts)"
    using L ok by (simp add: layers_ok_def)
  then have Lc: "L < length (codemaps ts)"
    using assms(3) by simp
  show ?case
  proof (cases "valid (layers ! L)")
    case False
    from Suc.IH [OF ok] L False show ?thesis by simp
  next
    case True
    let ?layers = "layers[L := ?b]"
    have ok': "layers_ok key_extent ts key ?layers"
      by (rule layers_ok_update [OF ok L])
    have len: "L \<le> length ?layers" using L by simp
    note step = layer_step [OF ok L True]
    show ?thesis
    proof (cases "valid ?b")
      case False
      from Suc.IH [OF ok' len] True False show ?thesis
        by (simp add: step Let_def)
    next
      case vb: True
      then obtain im where im: "image_of ?b = Some im"
        by (auto simp: binding_valid_image)
      with assms(4) Lv have "\<forall>x y. \<exists>code. raw_code (red (read im x y)) = Inr code"
        by (simp add: castable_def)
      from sample_layer_total [OF im this Lc]
      obtain r where r: "sample_layer no_data (codemaps ts) L ?b u v = Inr r"
        by blast
      show ?thesis
      proof (cases r)
        case None
        from Suc.IH [OF ok' len] True vb r None show ?thesis
          by (simp add: step Let_def)
      next
        case (Some texel)
        with True vb r show ?thesis
          by (simp add: step Let_def)
      qed
    qed
  qed
qed

lemma pixel_exact:
  assumes "layers_ok key_extent ts key (fst st)"
    and "pixel key_extent no_data ts key
           (nodata_texel no_data
              (if bits ts = Some 16 then GL_LUMINANCE16F_ARB else GL_LUMINANCE32F_ARB)) u v st
         = Inr st'"
  shows "layers_ok key_extent ts key (fst st')
       \<and> snd st' = snd st @ [(composite_texel key_extent no_data ts key u v, u, v)]"
proof -
  from assms(1) have len: "length (fst st) = length (coverages ts)"
    by (simp add: layers_ok_def)
  from assms(2) obtain layers' w where
    sc: "scan_layers key_extent no_data ts key u v (length (fst st)) (fst st) = Inr (layers', w)"
    by (auto simp: pixel_def split: sum.splits)
  from scan_layers_spec [OF assms(1) _ sc]
  have ok': "layers_ok key_extent ts key layers'"
    and w: "w = first_offer (\<lambda>L. offer key_extent no_data ts key L u v) (length (coverages ts))"
    by (simp_all add: len)
  from assms(2) sc have "st' = (layers', snd st @
      [(case w of Some texel \<Rightarrow> texel
        | None \<Rightarrow> nodata_texel no_data
            (if bits ts = Some 16 then GL_LUMINANCE16F_ARB else GL_LUMINANCE32F_ARB), u, v)])"
    by (auto simp: pixel_def split: option.splits)
  then show ?thesis
    using ok' w by (simp add: composite_texel_def)
qed

lemma pixel_fault_cast:
  assumes "layers_ok key_extent ts key (fst st)"
    and "length (codemaps ts) = length (coverages ts)"
    and "pixel key_extent no_data ts key nodata u v st = Inl e"
  shows "e = UndefinedCast \<and> \<not> castable key_extent ts key"
proof
  show "e = UndefinedCast"
    by (rule pixel_fault [OF assms])
  show "\<not> castable key_extent ts key"
  proof
    assume "castable key_extent ts key"
    from scan_layers_total [OF assms(1) _ assms(2) this, of "length (fst st)" no_data u v]
    obtain layers' w where
      "scan_layers key_extent no_data ts key u v (length (fst st)) (fst st) = Inr (layers', w)"
      by auto
    with assms(3) show False
      by (simp add: pixel_def split: option.splits)
  qed
qed


lemma run_append:
  assumes "I st"
    and step: "\<And>x st. I st \<Longrightarrow>
      (case body x st of
         None \<Rightarrow> False
       | Some (Inl e) \<Rightarrow> E e
       | Some (Inr st') \<Rightarrow> I st' \<and> out st' = out st @ f x)"
  shows "case run body xs st of
           None \<Rightarrow> False
         | Some (Inl e) \<Rightarrow> E e
         | Some (Inr st') \<Rightarrow> I st' \<and> out st' = out st @ concat (map f xs)"
  using assms(1)
proof (induction xs arbitrary: st)
  case Nil
  then show ?case by simp
next
  case (Cons x xs)
  from step [OF Cons.prems, of x] show ?case
  proof (cases "body x st")
    case None
    with step [OF Cons.prems, of x] show ?thesis by simp
  next
    case (Some r)
    show ?thesis
    proof (cases r)
      case (Inl e)
      with Some step [OF Cons.prems, of x] show ?thesis by simp
    next
      case (Inr st1)
      with Some step [OF Cons.prems, of x] have st1: "I st1" "out st1 = out st @ f x"
        by simp_all
      from Cons.IH [OF st1(1)] show ?thesis
        by (cases "run body xs st1") (auto simp: Some Inr st1(2) split: sum.splits)
    qed
  qed
qed

lemma createImage_visited:
  assumes v: "visits (fdiv binary32 (Fin 1) (float_of_int (getPixelsPerTile ts - 1))) (Fin 0) xs"
    and ne: "coverages ts \<noteq> []"
  shows "createImage key_extent no_data ts key = Some (Inl UndefinedCast)
           \<and> (length (codemaps ts) = length (coverages ts) \<longrightarrow> \<not> castable key_extent ts key)
       \<or> (\<exists>e. createImage key_extent no_data ts key = Some (Inl e)
              \<and> length (codemaps ts) \<noteq> length (coverages ts))
       \<or> createImage key_extent no_data ts key
           = Some (Inr (Some \<lparr>size_s = getPixelsPerTile ts, size_t = getPixelsPerTile ts,
                internalTextureFormat =
                  (if bits ts = Some 16 then GL_LUMINANCE16F_ARB else GL_LUMINANCE32F_ARB),
                writes = map (\<lambda>(u, v). (composite_texel key_extent no_data ts key u v, u, v))
                           (List.product xs xs)\<rparr>))"
proof -
  note if_split [split del]
  let ?fmt = "if bits ts = Some 16 then GL_LUMINANCE16F_ARB else GL_LUMINANCE32F_ARB"
  let ?px = "\<lambda>u v st. Some (pixel key_extent no_data ts key (nodata_texel no_data ?fmt) u v st)"
  let ?I = "\<lambda>st. layers_ok key_extent ts key (fst st)"
  let ?E = "\<lambda>e. length (codemaps ts) = length (coverages ts) \<longrightarrow>
              e = UndefinedCast \<and> \<not> castable key_extent ts key"
  let ?ct = "composite_texel key_extent no_data ts key"
  let ?st0 = "(replicate (length (coverages ts)) ILayer_new, [] :: (Vec4 \<times> fp \<times> fp) list)"
  have px: "case ?px u v st of None \<Rightarrow> False | Some (Inl e) \<Rightarrow> ?E e
            | Some (Inr st') \<Rightarrow> ?I st' \<and> snd st' = snd st @ [(?ct u v, u, v)]"
    if "?I st" for u v st
  proof (cases "pixel key_extent no_data ts key (nodata_texel no_data ?fmt) u v st")
    case (Inl e)
    with that show ?thesis by (auto dest: pixel_fault_cast)
  next
    case (Inr st')
    with pixel_exact [OF that Inr] show ?thesis by simp
  qed
  have row: "case run (?px u) xs st of None \<Rightarrow> False | Some (Inl e) \<Rightarrow> ?E e
            | Some (Inr st') \<Rightarrow> ?I st' \<and> snd st' = snd st @ map (\<lambda>v. (?ct u v, u, v)) xs"
    if "?I st" for u st
  proof -
    have eq: "concat (map (\<lambda>v. [(?ct u v, u, v)]) xs) = map (\<lambda>v. (?ct u v, u, v)) xs"
      by (induction xs) simp_all
    have "case run (?px u) xs st of None \<Rightarrow> False | Some (Inl e) \<Rightarrow> ?E e
            | Some (Inr st') \<Rightarrow> ?I st' \<and> snd st' = snd st @ concat (map (\<lambda>v. [(?ct u v, u, v)]) xs)"
      using that px by (rule run_append)
    then show ?thesis unfolding eq .
  qed
  have grid: "case run (\<lambda>u. run (?px u) xs) xs ?st0 of None \<Rightarrow> False | Some (Inl e) \<Rightarrow> ?E e
            | Some (Inr st') \<Rightarrow> ?I st'
                \<and> snd st' = snd ?st0 @ concat (map (\<lambda>u. map (\<lambda>v. (?ct u v, u, v)) xs) xs)"
    by (rule run_append [where I = ?I and E = ?E]) (simp_all add: layers_ok_new row)
  have prod: "concat (map (\<lambda>u. map (\<lambda>v. (?ct u v, u, v)) xs) us)
      = map (\<lambda>(u, v). (?ct u v, u, v)) (List.product us xs)" for us
    by (induction us) (simp_all add: comp_def)
  note ci = createImage_run [OF ne v, of key_extent no_data key]
  show ?thesis
  proof (cases "run (\<lambda>u. run (?px u) xs) xs ?st0")
    case None
    with grid show ?thesis by simp
  next
    case (Some r)
    show ?thesis
    proof (cases r)
      case (Inl e)
      with Some grid have "?E e" by simp
      moreover have "createImage key_extent no_data ts key = Some (Inl e)"
        unfolding ci by (simp add: Some Inl)
      ultimately show ?thesis by auto
    next
      case (Inr st')
      with Some grid have "snd st' = map (\<lambda>(u, v). (?ct u v, u, v)) (List.product xs xs)"
        by (simp add: prod)
      then have "createImage key_extent no_data ts key
           = Some (Inr (Some \<lparr>size_s = getPixelsPerTile ts, size_t = getPixelsPerTile ts,
                internalTextureFormat = ?fmt,
                writes = map (\<lambda>(u, v). (?ct u v, u, v)) (List.product xs xs)\<rparr>))"
        unfolding ci by (simp add: Some Inr)
      then show ?thesis by blast
    qed
  qed
qed


lemma first_offer_None_iff: "first_offer f n = None \<longleftrightarrow> (\<forall>L < n. f L = None)"
  by (induction n) (auto simp: less_Suc_eq split: option.splits)

lemma first_offer_empty_tables:
  assumes "\<forall>cm \<in> set (codemaps ts). cm = []" and "length (codemaps ts) = length (coverages ts)"
  shows "first_offer (\<lambda>L. offer key_extent no_data ts key L u v) (length (coverages ts)) = None"
proof -
  have "codemaps ts ! L = []" if "L < length (coverages ts)" for L
    using that assms by simp
  then show ?thesis
    by (intro first_offer_none) (simp add: offer_empty_table)
qed

lemma binding_image:
  assumes "image_of (binding key_extent key c) = Some im"
  shows "\<exists>k. createImageOf c k = Some im"
proof (cases "getEnabled c \<and> getVisible c \<and> isKeyInLegalRange c key")
  case False
  from binding_closed [OF this, of key_extent] assms show ?thesis
    by (simp add: ILayer_new_def)
next
  case True
  from binding_open [OF this, of key_extent] assms
  obtain A where "first_image (createImageOf c) (ancestors key) = Some (A, im)"
    by (auto simp: ILayer_new_def split: option.splits)
  from first_image_Some [OF this] show ?thesis by blast
qed

lemma castable_uniform:
  assumes "\<forall>c \<in> set (coverages ts). \<exists>x ms. c = uniform_coverage x ms \<and> (\<exists>code. raw_code x = Inr code)"
  shows "castable key_extent ts key"
  unfolding castable_def
proof (intro allI impI)
  fix L im x y
  assume L: "L < length (coverages ts)"
    and im: "image_of (binding key_extent key (coverages ts ! L)) = Some im"
  from L assms obtain a ms code where c: "coverages ts ! L = uniform_coverage a ms"
    and code: "raw_code a = Inr code"
    by (metis nth_mem)
  from binding_image [OF im] obtain k where "createImageOf (uniform_coverage a ms) k = Some im"
    unfolding c by blast
  then have "im = uniform_image a"
    by (simp add: uniform_coverage_def split: if_splits)
  then have "red (read im x y) = a"
    by (simp add: uniform_image_def)
  with code show "\<exists>code. raw_code (red (read im x y)) = Inr code"
    by simp
qed

lemma raw_code_one: "raw_code (Fin 1) = Inr 1"
  by code_simp

lemma uniform_coverage_enabled: "getEnabled (uniform_coverage x ms)"
  by (simp add: uniform_coverage_def)

lemma unattached_fields:
  "coverages (unattached b) = [uniform_coverage (Fin 1) [(1, ''crop'')],
                               uniform_coverage (Fin 1) [(1, ''forest'')]]"
  "codemaps (unattached b) = [[], []]"
  "bits (unattached b) = b"
  "getPixelsPerTile (unattached b) = 2"
  by (simp_all add: unattached_def initialize_def uniform_coverage_enabled)

lemma unattached_eleven_fields:
  "coverages (unattached_eleven b) = [uniform_coverage (Fin 1) [(1, ''crop'')],
                                      uniform_coverage (Fin 1) [(1, ''forest'')]]"
  "codemaps (unattached_eleven b) = [[], []]"
  "bits (unattached_eleven b) = b"
  "getPixelsPerTile (unattached_eleven b) = 11"
  by (simp_all add: unattached_eleven_def initialize_def uniform_coverage_enabled)

lemma castable_unattached: "castable key_extent (unattached b) key"
  by (rule castable_uniform) (auto simp: unattached_fields raw_code_one)

lemma castable_unattached_eleven: "castable key_extent (unattached_eleven b) key"
  by (rule castable_uniform) (auto simp: unattached_eleven_fields raw_code_one)

lemma visits_eleven:
  "t = 11 \<Longrightarrow> visits (fdiv binary32 (Fin 1) (float_of_int (t - 1))) (Fin 0) eleven_samples"
  by (simp only:) code_simp


lemma createImage_exact:
  assumes "visits (fdiv binary32 (Fin 1) (float_of_int (getPixelsPerTile ts - 1))) (Fin 0) xs"
    and "coverages ts \<noteq> []"
    and "length (codemaps ts) = length (coverages ts)"
  shows "createImage key_extent no_data ts key = Some (Inl UndefinedCast)
           \<and> \<not> castable key_extent ts key
       \<or> createImage key_extent no_data ts key
           = Some (Inr (Some \<lparr>size_s = getPixelsPerTile ts, size_t = getPixelsPerTile ts,
                internalTextureFormat =
                  (if bits ts = Some 16 then GL_LUMINANCE16F_ARB else GL_LUMINANCE32F_ARB),
                writes = map (\<lambda>(u, v). (composite_texel key_extent no_data ts key u v, u, v))
                           (List.product xs xs)\<rparr>))"
  using createImage_visited [OF assms(1,2), of key_extent no_data key] assms(3) by blast

lemma sentinel_of_bits:
  "nodata_texel no_data (if b = Some 16 then GL_LUMINANCE16F_ARB else GL_LUMINANCE32F_ARB)
     = (if b = Some (16 :: nat)
        then Vec4 (Fin (- 32768)) (Fin (- 32768)) (Fin (- 32768)) (Fin (- 32768))
        else Vec4 no_data no_data no_data no_data)"
  by (simp add: nodata_texel_def)

lemma composite_texel_sentinel:
  "composite_texel key_extent no_data ts key u v
     = (case first_offer (\<lambda>L. offer key_extent no_data ts key L u v) (length (coverages ts)) of
          Some texel \<Rightarrow> texel
        | None \<Rightarrow> if bits ts = Some 16
                  then Vec4 (Fin (- 32768)) (Fin (- 32768)) (Fin (- 32768)) (Fin (- 32768))
                  else Vec4 no_data no_data no_data no_data)"
  by (simp only: composite_texel_def sentinel_of_bits)

lemma composite_texel_empty_tables:
  assumes "\<forall>cm \<in> set (codemaps ts). cm = []" and "length (codemaps ts) = length (coverages ts)"
  shows "composite_texel key_extent no_data ts key u v
     = nodata_texel no_data
         (if bits ts = Some 16 then GL_LUMINANCE16F_ARB else GL_LUMINANCE32F_ARB)"
  unfolding composite_texel_def first_offer_empty_tables [OF assms] by simp

lemma createImage_empty_tables:
  assumes "visits (fdiv binary32 (Fin 1) (float_of_int (getPixelsPerTile ts - 1))) (Fin 0) xs"
    and "coverages ts \<noteq> []"
    and "length (codemaps ts) = length (coverages ts)"
    and "\<forall>cm \<in> set (codemaps ts). cm = []"
  shows "createImage key_extent no_data ts key = Some (Inl UndefinedCast)
           \<and> \<not> castable key_extent ts key
       \<or> createImage key_extent no_data ts key
           = Some (Inr (Some \<lparr>size_s = getPixelsPerTile ts, size_t = getPixelsPerTile ts,
                internalTextureFormat =
                  (if bits ts = Some 16 then GL_LUMINANCE16F_ARB else GL_LUMINANCE32F_ARB),
                writes = map (\<lambda>(u, v). (nodata_texel no_data
                                (if bits ts = Some 16 then GL_LUMINANCE16F_ARB
                                 else GL_LUMINANCE32F_ARB), u, v))
                           (List.product xs xs)\<rparr>))"
  using createImage_exact [OF assms(1,2,3), of key_extent no_data key]
  unfolding composite_texel_empty_tables [OF assms(4,3)] .

lemma unattached_eleven_image:
  "createImage key_extent no_data (unattached_eleven b) key
     = Some (Inr (Some \<lparr>size_s = 11, size_t = 11,
          internalTextureFormat =
            (if b = Some 16 then GL_LUMINANCE16F_ARB else GL_LUMINANCE32F_ARB),
          writes = map (\<lambda>(u, v). (nodata_texel no_data
                          (if b = Some 16 then GL_LUMINANCE16F_ARB else GL_LUMINANCE32F_ARB),
                          u, v))
                     (List.product eleven_samples eleven_samples)\<rparr>))"
proof -
  have v: "visits (fdiv binary32 (Fin 1) (float_of_int (getPixelsPerTile (unattached_eleven b) - 1)))
      (Fin 0) eleven_samples"
    by (rule visits_eleven) (simp add: unattached_eleven_fields)
  have ne: "coverages (unattached_eleven b) \<noteq> []"
    and len: "length (codemaps (unattached_eleven b)) = length (coverages (unattached_eleven b))"
    and e: "\<forall>cm \<in> set (codemaps (unattached_eleven b)). cm = []"
    by (simp_all add: unattached_eleven_fields)
  from createImage_empty_tables [OF v ne len e, of key_extent no_data key]
    castable_unattached_eleven [of key_extent b key]
  show ?thesis
    unfolding unattached_eleven_fields by blast
qed

lemma eleven_samples_product: "length (List.product eleven_samples eleven_samples) = 100"
  by (simp add: eleven_samples_def)

lemma initialize_codemaps:
  "(\<forall>cm \<in> set (codemaps (initialize options_coverages options_bits tilesize)). cm = [])
   \<and> length (codemaps (initialize options_coverages options_bits tilesize))
       = length (coverages (initialize options_coverages options_bits tilesize))"
  unfolding initialize_def
  using initialize_loop_codemaps [of "\<lparr>coverages = [], codemaps = [], bits = options_bits,
    getPixelsPerTile = tilesize\<rparr>" options_coverages]
  by simp

text \<open>
  C8. \<open>initialize\<close> gives every opened coverage an empty code map, and setting an absent
  dictionary leaves the code maps as they are. When every code map is empty and the loops
  end, \<open>createImage\<close> returns an image with one call of \<open>write.f\<close> at each pair of
  positions the loops visit, in the order of the loops, each of them with the no-data texel
  of the format of the image, and no other call; the only other outcome is the undefined
  conversion of a sample to \<open>int\<close>, which a \<open>castable\<close> tile source excludes. The positions
  visited are not always the \<open>T\<close> by \<open>T\<close> of the raster: with a tile size of 11 and two
  coverages as \<open>initialize\<close> opens them, for every tile key, the image has 11 by 11 texels
  and the loops visit the ten positions \<open>eleven_samples\<close> in each direction, so 100 texels
  receive the no-data value and the others receive nothing.
\<close>

theorem empty_tables_nodata:
  "(\<forall>cm \<in> set (codemaps (initialize options_coverages options_bits tilesize)). cm = [])
   \<and> length (codemaps (initialize options_coverages options_bits tilesize))
       = length (coverages (initialize options_coverages options_bits tilesize))
   \<and> (length (codemaps ts) = length (coverages ts) \<longrightarrow>
        (\<exists>ts'. setDictionary None ts = Inr ts' \<and> codemaps ts' = codemaps ts
           \<and> length (coverages ts') = length (coverages ts)))
   \<and> (visits (fdiv binary32 (Fin 1) (float_of_int (getPixelsPerTile ts - 1))) (Fin 0) xs
        \<and> coverages ts \<noteq> []
        \<and> length (codemaps ts) = length (coverages ts)
        \<and> (\<forall>cm \<in> set (codemaps ts). cm = [])
      \<longrightarrow> createImage key_extent no_data ts key = Some (Inl UndefinedCast)
             \<and> \<not> castable key_extent ts key
          \<or> createImage key_extent no_data ts key
             = Some (Inr (Some \<lparr>size_s = getPixelsPerTile ts, size_t = getPixelsPerTile ts,
                  internalTextureFormat =
                    (if bits ts = Some 16 then GL_LUMINANCE16F_ARB else GL_LUMINANCE32F_ARB),
                  writes = map (\<lambda>(u, v). (nodata_texel no_data
                                  (if bits ts = Some 16 then GL_LUMINANCE16F_ARB
                                   else GL_LUMINANCE32F_ARB), u, v))
                             (List.product xs xs)\<rparr>)))
   \<and> getPixelsPerTile (unattached_eleven None) = 11
   \<and> codemaps (unattached_eleven None) = [[], []]
   \<and> createImage key_extent no_data (unattached_eleven None) key
       = Some (Inr (Some \<lparr>size_s = 11, size_t = 11,
            internalTextureFormat = GL_LUMINANCE32F_ARB,
            writes = map (\<lambda>(u, v). (Vec4 no_data no_data no_data no_data, u, v))
                       (List.product eleven_samples eleven_samples)\<rparr>))
   \<and> length (List.product eleven_samples eleven_samples) = 100"
proof (intro conjI impI)
  show "\<forall>cm \<in> set (codemaps (initialize options_coverages options_bits tilesize)). cm = []"
    "length (codemaps (initialize options_coverages options_bits tilesize))
       = length (coverages (initialize options_coverages options_bits tilesize))"
    using initialize_codemaps [of options_coverages options_bits tilesize] by simp_all
next
  assume "length (codemaps ts) = length (coverages ts)"
  then show "\<exists>ts'. setDictionary None ts = Inr ts' \<and> codemaps ts' = codemaps ts
           \<and> length (coverages ts') = length (coverages ts)"
    unfolding setDictionary_def by (rule setDictionary_loop_None)
next
  assume "visits (fdiv binary32 (Fin 1) (float_of_int (getPixelsPerTile ts - 1))) (Fin 0) xs
        \<and> coverages ts \<noteq> []
        \<and> length (codemaps ts) = length (coverages ts)
        \<and> (\<forall>cm \<in> set (codemaps ts). cm = [])"
  then show "createImage key_extent no_data ts key = Some (Inl UndefinedCast)
             \<and> \<not> castable key_extent ts key
          \<or> createImage key_extent no_data ts key
             = Some (Inr (Some \<lparr>size_s = getPixelsPerTile ts, size_t = getPixelsPerTile ts,
                  internalTextureFormat =
                    (if bits ts = Some 16 then GL_LUMINANCE16F_ARB else GL_LUMINANCE32F_ARB),
                  writes = map (\<lambda>(u, v). (nodata_texel no_data
                                  (if bits ts = Some 16 then GL_LUMINANCE16F_ARB
                                   else GL_LUMINANCE32F_ARB), u, v))
                             (List.product xs xs)\<rparr>))"
    by (intro createImage_empty_tables) simp_all
next
  show "getPixelsPerTile (unattached_eleven None) = 11"
    "codemaps (unattached_eleven None) = [[], []]"
    by (simp_all add: unattached_eleven_fields)
next
  show "createImage key_extent no_data (unattached_eleven None) key
       = Some (Inr (Some \<lparr>size_s = 11, size_t = 11,
            internalTextureFormat = GL_LUMINANCE32F_ARB,
            writes = map (\<lambda>(u, v). (Vec4 no_data no_data no_data no_data, u, v))
                       (List.product eleven_samples eleven_samples)\<rparr>))"
    using unattached_eleven_image [of key_extent no_data None key]
    by (simp add: nodata_texel_def)
next
  show "length (List.product eleven_samples eleven_samples) = 100"
    by (rule eleven_samples_product)
qed

theorem empty_tables_nodata_witness:
  "codemaps (unattached None) = [[], []]
   \<and> length (coverages (unattached None)) = 2
   \<and> setDictionary None (unattached None) = Inr (unattached None)
   \<and> visits (fdiv binary32 (Fin 1) (float_of_int (getPixelsPerTile (unattached None) - 1)))
       (Fin 0) [Fin 0, Fin 1]
   \<and> castable grid_extent (unattached None) (TileKey 0 0 0)
   \<and> createImage grid_extent example_no_data (unattached None) (TileKey 0 0 0)
     = Some (Inr (Some \<lparr>size_s = 2, size_t = 2, internalTextureFormat = GL_LUMINANCE32F_ARB,
          writes = [(Vec4 example_no_data example_no_data example_no_data example_no_data, Fin 0, Fin 0),
                    (Vec4 example_no_data example_no_data example_no_data example_no_data, Fin 0, Fin 1),
                    (Vec4 example_no_data example_no_data example_no_data example_no_data, Fin 1, Fin 0),
                    (Vec4 example_no_data example_no_data example_no_data example_no_data, Fin 1, Fin 1)]\<rparr>))"
proof -
  let ?ts = "unattached None"
  have cm: "codemaps ?ts = [[], []]" and n: "length (coverages ?ts) = 2"
    by (simp_all add: unattached_fields)
  have sd: "setDictionary None ?ts = Inr ?ts"
    unfolding setDictionary_def
    by (subst setDictionary_loop.simps, subst setDictionary_loop.simps,
        subst setDictionary_loop.simps)
       (simp add: unattached_def initialize_def uniform_coverage_def vector_at_def
         buildCodeMap_def)
  have v: "visits (fdiv binary32 (Fin 1) (float_of_int (getPixelsPerTile ?ts - 1)))
             (Fin 0) [Fin 0, Fin 1]"
    by (rule visits_two) (simp add: unattached_fields)
  have c: "castable grid_extent ?ts (TileKey 0 0 0)"
    by (rule castable_unattached)
  have h: "visits (fdiv binary32 (Fin 1) (float_of_int (getPixelsPerTile ?ts - 1)))
                (Fin 0) [Fin 0, Fin 1]
        \<and> coverages ?ts \<noteq> []
        \<and> length (codemaps ?ts) = length (coverages ?ts)
        \<and> (\<forall>cm \<in> set (codemaps ?ts). cm = [])"
  proof (intro conjI)
    show "visits (fdiv binary32 (Fin 1) (float_of_int (getPixelsPerTile ?ts - 1)))
                (Fin 0) [Fin 0, Fin 1]"
      by (rule v)
  qed (simp_all add: unattached_fields)
  from empty_tables_nodata [where ts = ?ts and xs = "[Fin 0, Fin 1]" and key_extent = grid_extent
      and no_data = example_no_data and key = "TileKey 0 0 0"] h c
  have "createImage grid_extent example_no_data ?ts (TileKey 0 0 0)
             = Some (Inr (Some \<lparr>size_s = getPixelsPerTile ?ts, size_t = getPixelsPerTile ?ts,
                  internalTextureFormat =
                    (if bits ?ts = Some 16 then GL_LUMINANCE16F_ARB else GL_LUMINANCE32F_ARB),
                  writes = map (\<lambda>(u, v). (nodata_texel example_no_data
                                  (if bits ?ts = Some 16 then GL_LUMINANCE16F_ARB
                                   else GL_LUMINANCE32F_ARB), u, v))
                             (List.product [Fin 0, Fin 1] [Fin 0, Fin 1])\<rparr>))"
    by blast
  then have "createImage grid_extent example_no_data ?ts (TileKey 0 0 0)
     = Some (Inr (Some \<lparr>size_s = 2, size_t = 2, internalTextureFormat = GL_LUMINANCE32F_ARB,
          writes = [(Vec4 example_no_data example_no_data example_no_data example_no_data, Fin 0, Fin 0),
                    (Vec4 example_no_data example_no_data example_no_data example_no_data, Fin 0, Fin 1),
                    (Vec4 example_no_data example_no_data example_no_data example_no_data, Fin 1, Fin 0),
                    (Vec4 example_no_data example_no_data example_no_data example_no_data, Fin 1, Fin 1)]\<rparr>))"
    by (simp add: unattached_fields nodata_texel_def)
  with cm n sd v c show ?thesis by blast
qed

text \<open>
  C9. When the loops end, \<open>createImage\<close> returns an image with one call of \<open>write.f\<close> at
  each pair of positions the loops visit, in the order of the loops, and no other call.
  Where no coverage has an offer, the texel written is \<open>-32768\<close> in its four channels when
  \<open>bits\<close> is set to 16, and \<open>NO_DATA_VALUE\<close> in its four channels otherwise; where a
  coverage has an offer it is the offer of highest index. The only other outcome is the
  undefined conversion of a sample to \<open>int\<close>. The positions visited are not always the
  \<open>T\<close> by \<open>T\<close> of the raster: with \<open>bits\<close> set to 16, a tile size of 11 and two coverages
  as \<open>initialize\<close> opens them, no coverage has an offer anywhere, the image has 11 by 11
  texels and only 100 of them receive \<open>-32768\<close>, for every tile key.
\<close>

theorem nodata_sentinel:
  "(visits (fdiv binary32 (Fin 1) (float_of_int (getPixelsPerTile ts - 1))) (Fin 0) xs
        \<and> coverages ts \<noteq> []
        \<and> length (codemaps ts) = length (coverages ts)
      \<longrightarrow> createImage key_extent no_data ts key = Some (Inl UndefinedCast)
             \<and> \<not> castable key_extent ts key
          \<or> createImage key_extent no_data ts key
             = Some (Inr (Some \<lparr>size_s = getPixelsPerTile ts, size_t = getPixelsPerTile ts,
                  internalTextureFormat =
                    (if bits ts = Some 16 then GL_LUMINANCE16F_ARB else GL_LUMINANCE32F_ARB),
                  writes = map (\<lambda>(u, v).
                                  (case first_offer (\<lambda>L. offer key_extent no_data ts key L u v)
                                          (length (coverages ts)) of
                                     Some texel \<Rightarrow> texel
                                   | None \<Rightarrow>
                                       if bits ts = Some 16
                                       then Vec4 (Fin (- 32768)) (Fin (- 32768))
                                              (Fin (- 32768)) (Fin (- 32768))
                                       else Vec4 no_data no_data no_data no_data,
                                   u, v))
                             (List.product xs xs)\<rparr>)))
   \<and> ((first_offer (\<lambda>L. offer key_extent no_data ts key L u v) (length (coverages ts)) = None)
        = (\<forall>L < length (coverages ts). offer key_extent no_data ts key L u v = None))
   \<and> getPixelsPerTile (unattached_eleven (Some 16)) = 11
   \<and> bits (unattached_eleven (Some 16)) = Some 16
   \<and> first_offer (\<lambda>L. offer key_extent no_data (unattached_eleven (Some 16)) key L u v)
        (length (coverages (unattached_eleven (Some 16)))) = None
   \<and> createImage key_extent no_data (unattached_eleven (Some 16)) key
       = Some (Inr (Some \<lparr>size_s = 11, size_t = 11,
            internalTextureFormat = GL_LUMINANCE16F_ARB,
            writes = map (\<lambda>(u, v). (Vec4 (Fin (- 32768)) (Fin (- 32768))
                                       (Fin (- 32768)) (Fin (- 32768)), u, v))
                       (List.product eleven_samples eleven_samples)\<rparr>))
   \<and> length (List.product eleven_samples eleven_samples) = 100"
proof (intro conjI impI)
  assume "visits (fdiv binary32 (Fin 1) (float_of_int (getPixelsPerTile ts - 1))) (Fin 0) xs
        \<and> coverages ts \<noteq> []
        \<and> length (codemaps ts) = length (coverages ts)"
  then have "createImage key_extent no_data ts key = Some (Inl UndefinedCast)
           \<and> \<not> castable key_extent ts key
       \<or> createImage key_extent no_data ts key
           = Some (Inr (Some \<lparr>size_s = getPixelsPerTile ts, size_t = getPixelsPerTile ts,
                internalTextureFormat =
                  (if bits ts = Some 16 then GL_LUMINANCE16F_ARB else GL_LUMINANCE32F_ARB),
                writes = map (\<lambda>(u, v). (composite_texel key_extent no_data ts key u v, u, v))
                           (List.product xs xs)\<rparr>))"
    by (intro createImage_exact) simp_all
  then show "createImage key_extent no_data ts key = Some (Inl UndefinedCast)
             \<and> \<not> castable key_extent ts key
          \<or> createImage key_extent no_data ts key
             = Some (Inr (Some \<lparr>size_s = getPixelsPerTile ts, size_t = getPixelsPerTile ts,
                  internalTextureFormat =
                    (if bits ts = Some 16 then GL_LUMINANCE16F_ARB else GL_LUMINANCE32F_ARB),
                  writes = map (\<lambda>(u, v).
                                  (case first_offer (\<lambda>L. offer key_extent no_data ts key L u v)
                                          (length (coverages ts)) of
                                     Some texel \<Rightarrow> texel
                                   | None \<Rightarrow>
                                       if bits ts = Some 16
                                       then Vec4 (Fin (- 32768)) (Fin (- 32768))
                                              (Fin (- 32768)) (Fin (- 32768))
                                       else Vec4 no_data no_data no_data no_data,
                                   u, v))
                             (List.product xs xs)\<rparr>))"
    unfolding composite_texel_sentinel .
next
  show "(first_offer (\<lambda>L. offer key_extent no_data ts key L u v) (length (coverages ts)) = None)
        = (\<forall>L < length (coverages ts). offer key_extent no_data ts key L u v = None)"
    by (rule first_offer_None_iff)
next
  show "getPixelsPerTile (unattached_eleven (Some 16)) = 11"
    "bits (unattached_eleven (Some 16)) = Some 16"
    by (simp_all add: unattached_eleven_fields)
next
  show "first_offer (\<lambda>L. offer key_extent no_data (unattached_eleven (Some 16)) key L u v)
        (length (coverages (unattached_eleven (Some 16)))) = None"
    by (rule first_offer_empty_tables) (simp_all add: unattached_eleven_fields)
next
  show "createImage key_extent no_data (unattached_eleven (Some 16)) key
       = Some (Inr (Some \<lparr>size_s = 11, size_t = 11,
            internalTextureFormat = GL_LUMINANCE16F_ARB,
            writes = map (\<lambda>(u, v). (Vec4 (Fin (- 32768)) (Fin (- 32768))
                                       (Fin (- 32768)) (Fin (- 32768)), u, v))
                       (List.product eleven_samples eleven_samples)\<rparr>))"
    using unattached_eleven_image [of key_extent no_data "Some 16" key]
    by (simp add: nodata_texel_def)
next
  show "length (List.product eleven_samples eleven_samples) = 100"
    by (rule eleven_samples_product)
qed


theorem nodata_sentinel_witness:
  "visits (fdiv binary32 (Fin 1) (float_of_int (getPixelsPerTile (unattached (Some 16)) - 1)))
       (Fin 0) [Fin 0, Fin 1]
   \<and> length (coverages (unattached (Some 16))) = 2
   \<and> length (codemaps (unattached (Some 16))) = 2
   \<and> castable grid_extent (unattached (Some 16)) (TileKey 0 0 0)
   \<and> bits (unattached (Some 16)) = Some 16
   \<and> offer grid_extent example_no_data (unattached (Some 16)) (TileKey 0 0 0) 0 (Fin 0) (Fin 1) = None
   \<and> offer grid_extent example_no_data (unattached (Some 16)) (TileKey 0 0 0) 1 (Fin 0) (Fin 1) = None
   \<and> createImage grid_extent example_no_data (unattached (Some 16)) (TileKey 0 0 0)
     = Some (Inr (Some \<lparr>size_s = 2, size_t = 2, internalTextureFormat = GL_LUMINANCE16F_ARB,
          writes = [(Vec4 (Fin (- 32768)) (Fin (- 32768)) (Fin (- 32768)) (Fin (- 32768)), Fin 0, Fin 0),
                    (Vec4 (Fin (- 32768)) (Fin (- 32768)) (Fin (- 32768)) (Fin (- 32768)), Fin 0, Fin 1),
                    (Vec4 (Fin (- 32768)) (Fin (- 32768)) (Fin (- 32768)) (Fin (- 32768)), Fin 1, Fin 0),
                    (Vec4 (Fin (- 32768)) (Fin (- 32768)) (Fin (- 32768)) (Fin (- 32768)), Fin 1, Fin 1)]\<rparr>))
   \<and> visits (fdiv binary32 (Fin 1) (float_of_int (getPixelsPerTile (unattached None) - 1)))
       (Fin 0) [Fin 0, Fin 1]
   \<and> length (coverages (unattached None)) = 2
   \<and> length (codemaps (unattached None)) = 2
   \<and> castable grid_extent (unattached None) (TileKey 0 0 0)
   \<and> bits (unattached None) = None
   \<and> offer grid_extent example_no_data (unattached None) (TileKey 0 0 0) 0 (Fin 0) (Fin 1) = None
   \<and> offer grid_extent example_no_data (unattached None) (TileKey 0 0 0) 1 (Fin 0) (Fin 1) = None
   \<and> createImage grid_extent example_no_data (unattached None) (TileKey 0 0 0)
     = Some (Inr (Some \<lparr>size_s = 2, size_t = 2, internalTextureFormat = GL_LUMINANCE32F_ARB,
          writes = [(Vec4 example_no_data example_no_data example_no_data example_no_data, Fin 0, Fin 0),
                    (Vec4 example_no_data example_no_data example_no_data example_no_data, Fin 0, Fin 1),
                    (Vec4 example_no_data example_no_data example_no_data example_no_data, Fin 1, Fin 0),
                    (Vec4 example_no_data example_no_data example_no_data example_no_data, Fin 1, Fin 1)]\<rparr>))"
proof -
  let ?s16 = "Vec4 (Fin (- 32768)) (Fin (- 32768)) (Fin (- 32768)) (Fin (- 32768))"
  let ?s32 = "Vec4 example_no_data example_no_data example_no_data example_no_data"
  have v: "visits (fdiv binary32 (Fin 1) (float_of_int (getPixelsPerTile (unattached b) - 1)))
             (Fin 0) [Fin 0, Fin 1]" for b
    by (rule visits_two) (simp add: unattached_fields)
  have n: "length (coverages (unattached b)) = 2" "length (codemaps (unattached b)) = 2"
    and b: "bits (unattached b) = b" for b
    by (simp_all add: unattached_fields)
  have c: "castable grid_extent (unattached b) (TileKey 0 0 0)" for b
    by (rule castable_unattached)
  have o: "offer grid_extent example_no_data (unattached b) (TileKey 0 0 0) 0 (Fin 0) (Fin 1) = None"
    "offer grid_extent example_no_data (unattached b) (TileKey 0 0 0) 1 (Fin 0) (Fin 1) = None" for b
    by (rule offer_empty_table, simp add: unattached_fields)+
  have fo: "first_offer (\<lambda>L. offer grid_extent example_no_data (unattached b) (TileKey 0 0 0) L u v)
      (length (coverages (unattached b))) = None" for b u v
    by (rule first_offer_empty_tables) (simp_all add: unattached_fields)
  have h: "visits (fdiv binary32 (Fin 1) (float_of_int (getPixelsPerTile (unattached b) - 1)))
                (Fin 0) [Fin 0, Fin 1]
        \<and> coverages (unattached b) \<noteq> []
        \<and> length (codemaps (unattached b)) = length (coverages (unattached b))" for b
  proof (intro conjI)
    show "visits (fdiv binary32 (Fin 1) (float_of_int (getPixelsPerTile (unattached b) - 1)))
                (Fin 0) [Fin 0, Fin 1]"
      by (rule v)
  qed (simp_all add: unattached_fields)
  have img: "createImage grid_extent example_no_data (unattached b) (TileKey 0 0 0)
     = Some (Inr (Some \<lparr>size_s = 2, size_t = 2,
          internalTextureFormat =
            (if b = Some 16 then GL_LUMINANCE16F_ARB else GL_LUMINANCE32F_ARB),
          writes = [(if b = Some 16 then ?s16 else ?s32, Fin 0, Fin 0),
                    (if b = Some 16 then ?s16 else ?s32, Fin 0, Fin 1),
                    (if b = Some 16 then ?s16 else ?s32, Fin 1, Fin 0),
                    (if b = Some 16 then ?s16 else ?s32, Fin 1, Fin 1)]\<rparr>))" for b
  proof -
    from nodata_sentinel [where ts = "unattached b" and xs = "[Fin 0, Fin 1]"
        and key_extent = grid_extent and no_data = example_no_data and key = "TileKey 0 0 0"]
      h [of b] c [of b]
    have "createImage grid_extent example_no_data (unattached b) (TileKey 0 0 0)
             = Some (Inr (Some \<lparr>size_s = getPixelsPerTile (unattached b),
                  size_t = getPixelsPerTile (unattached b),
                  internalTextureFormat =
                    (if bits (unattached b) = Some 16 then GL_LUMINANCE16F_ARB
                     else GL_LUMINANCE32F_ARB),
                  writes = map (\<lambda>(u, v).
                                  (case first_offer
                                          (\<lambda>L. offer grid_extent example_no_data (unattached b)
                                                  (TileKey 0 0 0) L u v)
                                          (length (coverages (unattached b))) of
                                     Some texel \<Rightarrow> texel
                                   | None \<Rightarrow>
                                       if bits (unattached b) = Some 16
                                       then Vec4 (Fin (- 32768)) (Fin (- 32768))
                                              (Fin (- 32768)) (Fin (- 32768))
                                       else Vec4 example_no_data example_no_data
                                              example_no_data example_no_data,
                                   u, v))
                             (List.product [Fin 0, Fin 1] [Fin 0, Fin 1])\<rparr>))"
      by blast
    then show ?thesis
      unfolding fo by (simp add: unattached_fields)
  qed
  from img [of "Some 16"] img [of None]
  have i16: "createImage grid_extent example_no_data (unattached (Some 16)) (TileKey 0 0 0)
     = Some (Inr (Some \<lparr>size_s = 2, size_t = 2, internalTextureFormat = GL_LUMINANCE16F_ARB,
          writes = [(?s16, Fin 0, Fin 0), (?s16, Fin 0, Fin 1), (?s16, Fin 1, Fin 0),
                    (?s16, Fin 1, Fin 1)]\<rparr>))"
    and i32: "createImage grid_extent example_no_data (unattached None) (TileKey 0 0 0)
     = Some (Inr (Some \<lparr>size_s = 2, size_t = 2, internalTextureFormat = GL_LUMINANCE32F_ARB,
          writes = [(?s32, Fin 0, Fin 0), (?s32, Fin 0, Fin 1), (?s32, Fin 1, Fin 0),
                    (?s32, Fin 1, Fin 1)]\<rparr>))"
    by simp_all
  from v [of "Some 16"] n [of "Some 16"] c [of "Some 16"] b [of "Some 16"] o [of "Some 16"] i16
    v [of None] n [of None] c [of None] b [of None] o [of None] i32
  show ?thesis by blast
qed

section \<open>The code of a sample\<close>

text \<open>
  C3, as the source has it. The code of a finite sample is its value, multiplied in
  \<open>float\<close> by 255 when the sample is below 1, with the fractional part discarded: the
  conversion \<open>(int)\<close> truncates toward zero, it does not round. The conversion is defined
  when the truncated value is an \<open>int\<close>; it is for every sample from 0 up to the largest
  \<open>int\<close>, and a sample in \<open>[0, 1)\<close> has a code from 0 to 255.
\<close>

theorem raw_code_truncates:
  "(raw_code (Fin q) = Inr c \<longleftrightarrow>
      (\<exists>p. (if q < 1 then fmul binary32 (Fin q) (Fin 255) else Fin q) = Fin p
           \<and> c = (if 0 \<le> p then \<lfloor>p\<rfloor> else \<lceil>p\<rceil>) \<and> INT_MIN \<le> c \<and> c \<le> INT_MAX))
   \<and> (1 \<le> q \<and> q < 2147483648 \<longrightarrow> raw_code (Fin q) = Inr \<lfloor>q\<rfloor>)
   \<and> (0 \<le> q \<and> q < 1 \<longrightarrow>
        (\<exists>p. fmul binary32 (Fin q) (Fin 255) = Fin p \<and> 0 \<le> p \<and> p \<le> 255
             \<and> raw_code (Fin q) = Inr \<lfloor>p\<rfloor>))"
proof (intro conjI impI)
  show "raw_code (Fin q) = Inr c \<longleftrightarrow>
      (\<exists>p. (if q < 1 then fmul binary32 (Fin q) (Fin 255) else Fin q) = Fin p
           \<and> c = (if 0 \<le> p then \<lfloor>p\<rfloor> else \<lceil>p\<rceil>) \<and> INT_MIN \<le> c \<and> c \<le> INT_MAX)"
  proof (cases "q < 1")
    case True
    show ?thesis
      by (cases "rnd binary32 (q * 255)") (auto simp: raw_code_def True Let_def)
  next
    case False
    then show ?thesis
      by (auto simp: raw_code_def Let_def)
  qed
next
  assume a: "1 \<le> q \<and> q < 2147483648"
  then have "0 \<le> \<lfloor>q\<rfloor>" "\<lfloor>q\<rfloor> < 2147483648"
    by (simp_all add: floor_less_iff)
  with a show "raw_code (Fin q) = Inr \<lfloor>q\<rfloor>"
    by (simp add: raw_code_def Let_def INT_MIN_def INT_MAX_def)
next
  assume a: "0 \<le> q \<and> q < 1"
  have "\<exists>p. rnd binary32 (q * 255) = Fin p \<and> 0 \<le> p \<and> p \<le> 255"
  proof (cases "q = 0")
    case True
    then show ?thesis by (simp add: rnd_def)
  next
    case False
    have "\<exists>p. rnd binary32 (q * 255) = Fin p \<and> 0 \<le> p \<and> p \<le> of_int 255 * pow2 0"
    proof (rule rnd_upper)
      show "0 < q * 255" using a False by simp
      show "q * 255 \<le> of_int 255 * pow2 0" using a by (simp add: pow2_def)
      show "of_int 255 * pow2 0 \<le> pow2 8" by (simp add: pow2_def)
      show "8 - int (prec binary32) + 1 \<le> 0" "emin binary32 - int (prec binary32) + 1 \<le> 0"
        "8 \<le> emax binary32"
        by (simp_all add: binary32_def)
    qed
    then show ?thesis by (simp add: pow2_def)
  qed
  then obtain p where p: "rnd binary32 (q * 255) = Fin p" "0 \<le> p" "p \<le> 255"
    by blast
  have "0 \<le> \<lfloor>p\<rfloor>"
    using p(2) by simp
  moreover have "\<lfloor>p\<rfloor> \<le> \<lfloor>255 :: rat\<rfloor>"
    using p(3) by (rule floor_mono)
  then have "\<lfloor>p\<rfloor> \<le> 255"
    by simp
  ultimately show "\<exists>p. fmul binary32 (Fin q) (Fin 255) = Fin p \<and> 0 \<le> p \<and> p \<le> 255
             \<and> raw_code (Fin q) = Inr \<lfloor>p\<rfloor>"
    using a p by (simp add: raw_code_def Let_def INT_MIN_def INT_MAX_def)
qed

text \<open>
  With rounding in place of truncation, the property fails at the samples \<open>0.5\<close> and
  \<open>1.5\<close>, where the product and the sample are exact in \<open>float\<close>: the codes are 127
  and 1, and rounding gives 128 and 2.
\<close>

theorem raw_code_not_rounded:
  "raw_code (Fin (1 / 2)) = Inr 127 \<and> round ((1 / 2 :: rat) * 255) = 128
   \<and> raw_code (Fin (3 / 2)) = Inr 1 \<and> round (3 / 2 :: rat) = 2"
proof -
  have "raw_code (Fin (1 / 2)) = Inr 127" "raw_code (Fin (3 / 2)) = Inr 1"
    by code_simp+
  moreover have "round ((1 / 2 :: rat) * 255) = 128" "round (3 / 2 :: rat) = 2"
    by (simp_all add: round_def)
  ultimately show ?thesis by simp
qed


theorem raw_code_truncates_witness:
  "fmul binary32 (Fin (1 / 2)) (Fin 255) = Fin (255 / 2)
   \<and> raw_code (Fin (1 / 2)) = Inr 127
   \<and> (1 :: rat) \<le> 3 / 2 \<and> (3 / 2 :: rat) < 2147483648
   \<and> raw_code (Fin (3 / 2)) = Inr 1
   \<and> raw_code (fdiv binary32 (Fin 5) (Fin 255)) = Inr 5
   \<and> raw_code (Fin 5) = Inr 5"
proof -
  have m: "fmul binary32 (Fin (1 / 2)) (Fin 255) = Fin (255 / 2)"
    by code_simp
  have r: "(1 :: rat) \<le> 3 / 2 \<and> (3 / 2 :: rat) < 2147483648"
    by simp
  have f: "raw_code (fdiv binary32 (Fin 5) (Fin 255)) = Inr 5"
    by code_simp
  from raw_code_truncates [of "1 / 2" 0]
  obtain p where p: "fmul binary32 (Fin (1 / 2)) (Fin 255) = Fin p"
    "raw_code (Fin (1 / 2)) = Inr \<lfloor>p\<rfloor>"
    by auto
  from p(1) have "p = 255 / 2"
    unfolding m by (simp only: fp.inject)
  with p(2) have "raw_code (Fin (1 / 2)) = Inr \<lfloor>255 / 2 :: rat\<rfloor>"
    by (simp only:)
  moreover have "\<lfloor>255 / 2 :: rat\<rfloor> = 127"
    by code_simp
  ultimately have a: "raw_code (Fin (1 / 2)) = Inr 127"
    by (simp only:)
  from raw_code_truncates [of "3 / 2" 0] r
  have "raw_code (Fin (3 / 2)) = Inr \<lfloor>3 / 2 :: rat\<rfloor>"
    by blast
  moreover have "\<lfloor>3 / 2 :: rat\<rfloor> = 1"
    by code_simp
  ultimately have b: "raw_code (Fin (3 / 2)) = Inr 1"
    by (simp only:)
  have "(1 :: rat) \<le> 5 \<and> (5 :: rat) < 2147483648"
    by simp
  with raw_code_truncates [of 5 0]
  have "raw_code (Fin 5) = Inr \<lfloor>5 :: rat\<rfloor>"
    by blast
  then have c: "raw_code (Fin 5) = Inr 5"
    by simp
  from m a r b f c show ?thesis by simp
qed

section \<open>The positions of the samples\<close>

text \<open>
  C2. With a tile size of 11 the step is the \<open>float\<close> nearest to \<open>1/10\<close>, which is above
  \<open>1/10\<close>; ten additions of it give a \<open>float\<close> above 1, so the loops over \<open>u\<close> and \<open>v\<close> end
  after ten rounds, the last at \<open>0.9000001\<close>: \<open>createImage\<close> makes 100 calls of \<open>write.f\<close>
  on an image of 11 by 11 texels, none of them at \<open>u = 1\<close> or \<open>v = 1\<close>.
\<close>

theorem eleven_pixels_writes:
  "fdiv binary32 (Fin 1) (float_of_int (11 - 1)) = Fin (13421773 / 134217728)
   \<and> visits (fdiv binary32 (Fin 1) (float_of_int (11 - 1))) (Fin 0) eleven_samples
   \<and> length eleven_samples = 10
   \<and> fadd binary32 (Fin (1887437 / 2097152)) (Fin (13421773 / 134217728))
       = Fin (8388609 / 8388608)
   \<and> map_option (map_sum id (map_option (\<lambda>out. (size_s out, size_t out, map snd (writes out)))))
        (createImage grid_extent example_no_data eleven_pixels (TileKey 0 0 0))
       = Some (Inr (Some (11, 11, List.product eleven_samples eleven_samples)))"
proof -
  have d: "fdiv binary32 (Fin 1) (float_of_int (11 - 1)) = Fin (13421773 / 134217728)"
    by code_simp
  have v: "visits (fdiv binary32 (Fin 1) (float_of_int (11 - 1))) (Fin 0) eleven_samples"
    by code_simp
  have l: "length eleven_samples = 10"
    by (simp add: eleven_samples_def)
  have a: "fadd binary32 (Fin (1887437 / 2097152)) (Fin (13421773 / 134217728))
       = Fin (8388609 / 8388608)"
    by code_simp
  have ne: "coverages eleven_pixels \<noteq> []"
    by (simp add: eleven_pixels_def)
  have t: "getPixelsPerTile eleven_pixels = 11"
    by (simp add: eleven_pixels_def)
  have v': "visits (fdiv binary32 (Fin 1) (float_of_int (getPixelsPerTile eleven_pixels - 1)))
      (Fin 0) eleven_samples"
    unfolding t by (rule v)
  have c: "map_option (map_sum id (map_option (\<lambda>out. (size_s out, size_t out, map snd (writes out)))))
        (createImage grid_extent example_no_data eleven_pixels (TileKey 0 0 0))
       = Some (Inr (Some (11, 11, List.product eleven_samples eleven_samples)))"
    unfolding createImage_run [OF ne v'] by code_simp
  from d v l a c show ?thesis by simp
qed

end
